theory Spec2Isabelle
  imports Complex_Main "HOL-Library.Word" "HOL-Library.Log_Nat"
begin

section \<open>Training-set preparation from raw microphone recordings (ml/prepare-data.cc)\<close>

text \<open>
  The program reads a recording of interleaved signed 32-bit samples (8 channels), derives a
  silence threshold from an early window, cuts the rest into chunks of 512 frames, labels
  every chunk and hands it to an output object that stores it (or rotated, normalised
  variants of it) in a directory tree.

  Conventions of the embedding:
  \<^item> a sample (\<open>int32_t\<close>) is a \<open>32 word\<close>, read with \<open>sint\<close>; \<open>long\<close> and \<open>off_t\<close>
    are 64 bits wide on the hosts the program targets and are modelled by \<open>int\<close>, since
    every value they hold here is a sample magnitude or a file offset; an \<open>int32_t\<close>
    obtained by narrowing keeps the low 32 bits (\<open>to_int32\<close>), and so does the
    subtraction of two samples;
  \<^item> a \<open>double\<close> is the rational number it denotes; every floating point operation is
    the exact operation followed by rounding to 53 significant bits, ties to even
    (exponent range unbounded, which is immaterial for the magnitudes that occur);
  \<^item> \<open>std::rand\<close>, the file system and the files written are fields of an explicit
    \<open>world\<close> that every output operation takes and returns;
  \<^item> \<open>fatal\<close>, an escaping exception and undefined behaviour are error values.
\<close>

subsection \<open>Constants\<close>

type_synonym int32 = "32 word"

definition NCHANNELS :: nat where
  "NCHANNELS = 8"

definition SAMPLES_PER_SECOND :: int where
  "SAMPLES_PER_SECOND = 24000"

definition OUT_NSAMPLES :: nat where
  "OUT_NSAMPLES = 512"

definition OUT_DATASET_NWORDS :: nat where
  "OUT_DATASET_NWORDS = OUT_NSAMPLES * NCHANNELS"

definition OUT_DROP_PERCENT :: nat where
  "OUT_DROP_PERCENT = 95"

subsection \<open>Binary floating point\<close>

text \<open>\<open>ilog2 x\<close> is the exponent \<open>e\<close> with \<open>2^e \<le> x < 2^(e+1)\<close>, for positive \<open>x\<close>.\<close>

definition ilog2 :: "rat \<Rightarrow> int" where
  "ilog2 x = (if 1 \<le> x then bitlen \<lfloor>x\<rfloor> - 1 else - bitlen (\<lceil>1 / x\<rceil> - 1))"

definition round_half_even :: "rat \<Rightarrow> int" where
  "round_half_even x =
     (let f = \<lfloor>x\<rfloor>; d = x - of_int f
      in if d < 1 / 2 then f
         else if 1 / 2 < d then f + 1
         else if even f then f else f + 1)"

text \<open>Rounding to \<open>prec\<close> significant bits: 53 for \<open>double\<close>, 24 for \<open>float\<close>.\<close>

definition round_binary :: "int \<Rightarrow> rat \<Rightarrow> rat" where
  "round_binary prec x =
     (if x = 0 then 0
      else let ulp = 2 powi (ilog2 \<bar>x\<bar> - (prec - 1))
           in sgn x * of_int (round_half_even (\<bar>x\<bar> / ulp)) * ulp)"

definition round_double :: "rat \<Rightarrow> rat" where
  "round_double = round_binary 53"

definition round_float :: "rat \<Rightarrow> rat" where
  "round_float = round_binary 24"

definition double_mul :: "rat \<Rightarrow> rat \<Rightarrow> rat" where
  "double_mul a b = round_double (a * b)"

definition double_div :: "rat \<Rightarrow> rat \<Rightarrow> rat" where
  "double_div a b = round_double (a / b)"

text \<open>
  A \<open>const float\<close> initialised from a decimal literal: the literal is a \<open>double\<close>, the
  initialisation narrows it.
\<close>

definition float_literal :: "rat \<Rightarrow> rat" where
  "float_literal x = round_float (round_double x)"

definition INITIAL_SKIP_S :: rat where
  "INITIAL_SKIP_S = float_literal (5 / 10)"

definition SILENCE_TRAINING_S :: rat where
  "SILENCE_TRAINING_S = float_literal 1"

definition VALID_SAMPLE_THRESHOLD :: rat where
  "VALID_SAMPLE_THRESHOLD = float_literal (11 / 10)"

definition VALID_SAMPLES_PERCENT :: rat where
  "VALID_SAMPLES_PERCENT = float_literal 10"

text \<open>
  Conversion of a \<open>double\<close> to a 32-bit integer type truncates towards zero; the
  behaviour is undefined (\<open>None\<close>) when the truncated value is not representable.
\<close>

definition trunc :: "rat \<Rightarrow> int" where
  "trunc x = (if 0 \<le> x then \<lfloor>x\<rfloor> else \<lceil>x\<rceil>)"

definition double_to_int32 :: "rat \<Rightarrow> int option" where
  "double_to_int32 x =
     (let t = trunc x in if - (2 ^ 31) \<le> t \<and> t < 2 ^ 31 then Some t else None)"

text \<open>Narrowing an integer to \<open>int32_t\<close> keeps the low 32 bits.\<close>

definition to_int32 :: "int \<Rightarrow> int" where
  "to_int32 x = sint (word_of_int x :: int32)"

subsection \<open>Offsets and calibration\<close>

definition secs2offs :: "rat \<Rightarrow> int" where
  "secs2offs nsecs =
     (let nsamples = double_mul (of_int SAMPLES_PER_SECOND) nsecs
      in \<lfloor>nsamples\<rfloor> * int NCHANNELS)"

definition labs :: "int \<Rightarrow> int" where
  "labs x = \<bar>x\<bar>"

definition int32_cmp_abs :: "int32 \<Rightarrow> int32 \<Rightarrow> bool" where
  "int32_cmp_abs a b = (labs (sint a) < labs (sint b))"

text \<open>
  \<open>std::max_element\<close>: the first element that no later element exceeds under the
  comparison \<open>cmp\<close>; on an empty range there is no element to dereference.
\<close>

fun max_element_from :: "('a \<Rightarrow> 'a \<Rightarrow> bool) \<Rightarrow> 'a \<Rightarrow> 'a list \<Rightarrow> 'a" where
  "max_element_from cmp largest [] = largest"
| "max_element_from cmp largest (x # xs) =
     max_element_from cmp (if cmp largest x then x else largest) xs"

fun max_element :: "('a \<Rightarrow> 'a \<Rightarrow> bool) \<Rightarrow> 'a list \<Rightarrow> 'a option" where
  "max_element cmp [] = None"
| "max_element cmp (x # xs) = Some (max_element_from cmp x xs)"

text \<open>The samples at offsets \<open>[b, e)\<close> of the mapped file.\<close>

definition buf_range :: "'a list \<Rightarrow> int \<Rightarrow> int \<Rightarrow> 'a list" where
  "buf_range raw b e = take (nat (e - b)) (drop (nat b) raw)"

definition silence_scan_i :: int where
  "silence_scan_i = secs2offs INITIAL_SKIP_S"

definition data_scan_i :: int where
  "data_scan_i = silence_scan_i + secs2offs SILENCE_TRAINING_S"

definition silence_max_of :: "int32 list \<Rightarrow> int option" where
  "silence_max_of raw =
     (case max_element int32_cmp_abs (buf_range raw silence_scan_i data_scan_i) of
        None \<Rightarrow> None
      | Some e \<Rightarrow> Some (to_int32 (labs (sint e))))"

definition silence_threshold_of :: "int \<Rightarrow> int option" where
  "silence_threshold_of silence_max =
     double_to_int32 (double_mul (of_int silence_max) VALID_SAMPLE_THRESHOLD)"

subsection \<open>Chunk classification\<close>

definition chunk_len :: int where
  "chunk_len = int (OUT_NSAMPLES * NCHANNELS)"

definition nvals_threshold :: "int option" where
  "nvals_threshold =
     double_to_int32 (double_div (double_mul (of_int chunk_len) VALID_SAMPLES_PERCENT) 100)"

text \<open>
  \<open>std::count_if\<close>, the predicate \<open>cmp_to_threshold\<close> of the loop body, and the label
  \<open>is_silence\<close> that the loop body computes for a chunk from \<open>nvals\<close>.
\<close>

definition count_if :: "('a \<Rightarrow> bool) \<Rightarrow> 'a list \<Rightarrow> int" where
  "count_if pred xs = fold (\<lambda>x n. if pred x then n + 1 else n) xs 0"

definition cmp_to_threshold :: "int \<Rightarrow> int32 \<Rightarrow> bool" where
  "cmp_to_threshold silence_threshold val = (labs (sint val) \<ge> silence_threshold)"

definition is_silence_of :: "int \<Rightarrow> int \<Rightarrow> int32 list \<Rightarrow> bool" where
  "is_silence_of silence_threshold nvals_thr chunk =
     (let nvals = count_if (cmp_to_threshold silence_threshold) chunk
      in nvals \<ge> nvals_thr)"

subsection \<open>The world outside: random numbers and the file system\<close>

text \<open>
  A destination is \<open>outbase / path / fname\<close> with
  \<open>fname = srcpath.filename() + "_" + to_string(chunk_i)\<close>; the components are kept apart.
\<close>

record dest =
  dst_outbase :: string
  dst_path :: string
  dst_srcname :: string
  dst_chunk_i :: int

datatype fs_result = Fs_ok | Fs_mkdir_fails | Fs_open_fails

datatype error =
    Too_short
  | Filesystem_error dest
  | Open_failed dest
  | Undefined_behaviour

text \<open>
  \<open>rand_seq w n\<close> is the value the \<open>n\<close>-th call of \<open>std::rand\<close> returns and
  \<open>rand_calls w\<close> the number of calls made so far; \<open>fs w d\<close> tells whether the
  directories of \<open>d\<close> can be created and the file opened; \<open>written w\<close> lists the
  files written, oldest first, each with the words stored in it. The source does not
  check the result of the write itself, and the model takes it to succeed.
\<close>

record world =
  rand_seq :: "nat \<Rightarrow> nat"
  rand_calls :: nat
  fs :: "dest \<Rightarrow> fs_result"
  written :: "(dest \<times> int32 list) list"

definition filename :: "string \<Rightarrow> string" where
  "filename p = rev (takeWhile (\<lambda>c. c \<noteq> CHR ''/'') (rev p))"

definition save_to_file ::
  "string \<Rightarrow> string \<Rightarrow> string \<Rightarrow> int32 list \<Rightarrow> int \<Rightarrow> world \<Rightarrow> (error + unit) \<times> world" where
  "save_to_file srcpath outbase path arr chunk_i w =
     (let rnd = rand_seq w (rand_calls w) mod 100;
          w1 = w\<lparr>rand_calls := rand_calls w + 1\<rparr>
      in if rnd < OUT_DROP_PERCENT then (Inr (), w1)
         else
           let dst = \<lparr>dst_outbase = outbase, dst_path = path,
                       dst_srcname = filename srcpath, dst_chunk_i = chunk_i\<rparr>
           in case fs w1 dst of
                Fs_mkdir_fails \<Rightarrow> (Inl (Filesystem_error dst), w1)
              | Fs_open_fails \<Rightarrow> (Inl (Open_failed dst), w1)
              | Fs_ok \<Rightarrow>
                  (Inr (), w1\<lparr>written := written w1 @ [(dst, take OUT_DATASET_NWORDS arr)]\<rparr>))"

subsection \<open>Output objects\<close>

text \<open>
  The two classes derived from \<open>base_output\<close>, each with \<open>srcpath\<close> and \<open>outbase\<close>.
  The constructor of \<open>dataset_output\<close> parses the recording's name and formats one
  directory per microphone offset; its result, \<open>angle_dirs\<close>, is the third field here.
\<close>

datatype base_output =
    Silence_output string string
  | Dataset_output string string "string list"

text \<open>The starts \<open>si = 0, 8, 16, ...\<close> of the frames of a chunk.\<close>

definition frame_starts :: "nat list" where
  "frame_starts = map (\<lambda>k. k * NCHANNELS) [0..<OUT_NSAMPLES]"

definition rotate_channels :: "int32 list \<Rightarrow> int32 list \<Rightarrow> nat \<Rightarrow> int32 list" where
  "rotate_channels data arr mic_offs =
     fold (\<lambda>si. fold (\<lambda>chi d. d[si + (chi + mic_offs) mod NCHANNELS := arr ! (si + chi)])
                     [0..<NCHANNELS])
          frame_starts data"

definition normalize_channels :: "int32 list \<Rightarrow> int32 list" where
  "normalize_channels data =
     fold (\<lambda>si. fold (\<lambda>chi d. d[si + chi := d ! (si + chi) - d ! si]) [1..<NCHANNELS])
          frame_starts data"

text \<open>
  The local array \<open>data\<close> is not initialised in the source. The model starts it with
  zeros; \<open>rotate_channels_init\<close> below shows that its initial content is irrelevant.
\<close>

definition variant :: "int32 list \<Rightarrow> nat \<Rightarrow> int32 list" where
  "variant arr mic_offs =
     normalize_channels (rotate_channels (replicate OUT_DATASET_NWORDS 0) arr mic_offs)"

fun save_variants ::
  "string \<Rightarrow> string \<Rightarrow> string list \<Rightarrow> int32 list \<Rightarrow> int \<Rightarrow> nat list \<Rightarrow> world
     \<Rightarrow> (error + unit) \<times> world" where
  "save_variants s b dirs arr chunk_i [] w = (Inr (), w)"
| "save_variants s b dirs arr chunk_i (mic_offs # rest) w =
     (let data = variant arr mic_offs
      in case save_to_file s b (dirs ! mic_offs) data chunk_i w of
           (Inl e, w') \<Rightarrow> (Inl e, w')
         | (Inr u, w') \<Rightarrow> save_variants s b dirs arr chunk_i rest w')"

fun save_chunk ::
  "base_output \<Rightarrow> int32 list \<Rightarrow> int \<Rightarrow> bool \<Rightarrow> world \<Rightarrow> (error + bool) \<times> world" where
  "save_chunk (Silence_output s b) arr chunk_i is_silence w =
     (case save_to_file s b ''silence'' arr chunk_i w of
        (Inl e, w') \<Rightarrow> (Inl e, w')
      | (Inr u, w') \<Rightarrow> (Inr True, w'))"
| "save_chunk (Dataset_output s b dirs) arr chunk_i is_silence w =
     (if is_silence then (Inr False, w)
      else case save_variants s b dirs arr chunk_i [0..<NCHANNELS] w of
             (Inl e, w') \<Rightarrow> (Inl e, w')
           | (Inr u, w') \<Rightarrow> (Inr True, w'))"

subsection \<open>Processing one recording\<close>

function chunk_loop ::
  "base_output \<Rightarrow> int32 list \<Rightarrow> int \<Rightarrow> int \<Rightarrow> int \<Rightarrow> int \<Rightarrow> world \<Rightarrow> (error + int) \<times> world" where
  "chunk_loop out raw silence_threshold nvals_thr chunk_i num_chunks w =
     (if chunk_i \<le> int (length raw) - chunk_len then
        let chunk = buf_range raw chunk_i (chunk_i + chunk_len);
            is_silence = is_silence_of silence_threshold nvals_thr chunk
        in case save_chunk out chunk chunk_i is_silence w of
             (Inl e, w') \<Rightarrow> (Inl e, w')
           | (Inr saved, w') \<Rightarrow>
               chunk_loop out raw silence_threshold nvals_thr (chunk_i + chunk_len)
                 (if saved then num_chunks + 1 else num_chunks) w'
      else (Inr num_chunks, w))"
  by pat_completeness auto
termination
  by (relation "measure (\<lambda>(out, raw, thr, nthr, chunk_i, n, w). nat (int (length raw) - chunk_i))")
     (auto simp: chunk_len_def OUT_NSAMPLES_def NCHANNELS_def)

declare chunk_loop.simps [simp del]

text \<open>
  \<open>process_raw_audio_file\<close> after the file has been mapped: \<open>raw\<close> is the content of the
  buffer and \<open>m->len\<close> its length. The result is \<open>num_chunks\<close>.
\<close>

definition process_raw_audio_file ::
  "base_output \<Rightarrow> int32 list \<Rightarrow> world \<Rightarrow> (error + int) \<times> world" where
  "process_raw_audio_file out raw w =
     (if silence_scan_i \<ge> int (length raw) \<or> data_scan_i \<ge> int (length raw)
      then (Inl Too_short, w)
      else
        case silence_max_of raw of
          None \<Rightarrow> (Inl Undefined_behaviour, w)
        | Some silence_max \<Rightarrow>
            (case silence_threshold_of silence_max of
               None \<Rightarrow> (Inl Undefined_behaviour, w)
             | Some silence_threshold \<Rightarrow>
                 (case nvals_threshold of
                    None \<Rightarrow> (Inl Undefined_behaviour, w)
                  | Some nvals_thr \<Rightarrow>
                      chunk_loop out raw silence_threshold nvals_thr data_scan_i 0 w)))"

subsection \<open>Reference formulations\<close>

text \<open>
  The quantities the properties below are stated with, written down directly rather than
  as the program computes them: the peak magnitude over the calibration window, the
  offsets of the chunks of a buffer of a given length, the submission of a given list of
  chunks in order, and the destination of a variant.
\<close>

definition window_peak :: "int32 list \<Rightarrow> int" where
  "window_peak raw =
     Max ((\<lambda>i. \<bar>sint (raw ! i)\<bar>) ` {nat silence_scan_i ..< nat data_scan_i})"

definition chunk_offsets :: "int \<Rightarrow> int list" where
  "chunk_offsets len =
     map (\<lambda>k. data_scan_i + int k * chunk_len)
       [0 ..< nat ((len - data_scan_i) div chunk_len)]"

fun submit_chunks ::
  "base_output \<Rightarrow> int32 list \<Rightarrow> int \<Rightarrow> int \<Rightarrow> int list \<Rightarrow> int \<Rightarrow> world
     \<Rightarrow> (error + int) \<times> world" where
  "submit_chunks out raw thr nthr [] num w = (Inr num, w)"
| "submit_chunks out raw thr nthr (off # offs) num w =
     (let chunk = buf_range raw off (off + chunk_len)
      in case save_chunk out chunk off (is_silence_of thr nthr chunk) w of
           (Inl e, w') \<Rightarrow> (Inl e, w')
         | (Inr saved, w') \<Rightarrow>
             submit_chunks out raw thr nthr offs (if saved then num + 1 else num) w')"

definition variant_dest :: "string \<Rightarrow> string \<Rightarrow> string list \<Rightarrow> int \<Rightarrow> nat \<Rightarrow> dest" where
  "variant_dest s b dirs chunk_i r =
     \<lparr>dst_outbase = b, dst_path = dirs ! r, dst_srcname = filename s, dst_chunk_i = chunk_i\<rparr>"

text \<open>
  Worlds for concrete runs: nothing written yet, every destination available, and
  \<open>std::rand\<close> returning \<open>v\<close> at every call, or \<open>v, v + 1, v + 2, ...\<close> in turn.
\<close>

definition const_world :: "nat \<Rightarrow> world" where
  "const_world v = \<lparr>rand_seq = (\<lambda>n. v), rand_calls = 0, fs = (\<lambda>d. Fs_ok), written = []\<rparr>"

definition ramp_world :: "nat \<Rightarrow> world" where
  "ramp_world v = \<lparr>rand_seq = (\<lambda>n. v + n), rand_calls = 0, fs = (\<lambda>d. Fs_ok), written = []\<rparr>"

text \<open>
  A recording for concrete runs: the skipped part is zero, the calibration window is \<open>v\<close>
  followed by zeros, and \<open>rest\<close> is what the chunks are cut from.
\<close>

definition example_recording :: "int32 \<Rightarrow> int32 list \<Rightarrow> int32 list" where
  "example_recording v rest = replicate 96000 0 @ v # replicate 191999 0 @ rest"

section \<open>Properties\<close>

subsection \<open>Rounding\<close>

lemma ilog2_bounds:
  assumes "0 < x"
  shows "2 powi (ilog2 x) \<le> x \<and> x < 2 powi (ilog2 x + 1)"
proof (cases "1 \<le> x")
  case True
  define n where "n = \<lfloor>x\<rfloor>"
  have n: "0 < n" using True by (simp add: n_def)
  have b: "2 ^ nat (bitlen n - 1) \<le> n" "n < 2 ^ nat (bitlen n)"
    using bitlen_bounds[OF n] by auto
  have bl: "1 \<le> bitlen n" using n by (simp add: bitlen_alt_def)
  have e: "ilog2 x = bitlen n - 1" using True by (simp add: ilog2_def n_def)
  have "(of_int (2 ^ nat (bitlen n - 1)) :: rat) \<le> of_int n" using b(1) by (simp only: of_int_le_iff)
  also have "\<dots> \<le> x" by (simp add: n_def)
  finally have lo: "2 powi (bitlen n - 1) \<le> x" using bl by (simp add: power_int_def)
  have "x < of_int (n + 1)" using floor_correct[of x] by (simp add: n_def)
  also have "\<dots> \<le> of_int (2 ^ nat (bitlen n))" using b(2) by (simp only: of_int_le_iff)
  finally have hi: "x < 2 powi (bitlen n)" using bl by (simp add: power_int_def)
  show ?thesis using lo hi by (simp add: e)
next
  case False
  define y where "y = 1 / x"
  define m where "m = \<lceil>y\<rceil>"
  have y: "1 < y" using False assms by (simp add: y_def)
  have m: "0 < m - 1" using y by (simp add: m_def less_ceiling_iff)
  define k where "k = bitlen (m - 1)"
  have b: "2 ^ nat (k - 1) \<le> m - 1" "m - 1 < 2 ^ nat k"
    using bitlen_bounds[OF m] by (auto simp: k_def)
  have kl: "1 \<le> k" using m by (simp add: bitlen_alt_def k_def)
  have e: "ilog2 x = - k" using False by (simp add: ilog2_def k_def m_def y_def)
  have "y \<le> of_int m" by (simp add: m_def)
  also have "\<dots> \<le> of_int (2 ^ nat k)" using b(2) by (simp only: of_int_le_iff)
  finally have yhi: "y \<le> 2 ^ nat k" by simp
  have "(of_int (2 ^ nat (k - 1)) :: rat) \<le> of_int (m - 1)" using b(1) by (simp only: of_int_le_iff)
  also have "\<dots> < y" using ceiling_correct[of y] by (simp add: m_def)
  finally have ylo: "2 ^ nat (k - 1) < y" by simp
  have xy: "x = inverse y" using assms by (simp add: y_def)
  have p1: "(2::rat) powi (- k) = inverse (2 ^ nat k)"
    using kl by (simp add: power_int_minus power_int_nonneg_exp)
  have "- k + 1 = - (k - 1)" by simp
  then have p2: "(2::rat) powi (- k + 1) = inverse (2 ^ nat (k - 1))"
    using kl by (simp only: power_int_minus) (simp add: power_int_nonneg_exp)
  have y0: "0 < y" using y by simp
  have lo: "2 powi (- k) \<le> x" unfolding p1 xy using yhi y0 by (rule le_imp_inverse_le)
  have hi: "x < 2 powi (- k + 1)" unfolding p2 xy using ylo by (rule less_imp_inverse_less) simp
  show ?thesis using lo hi by (simp add: e)
qed

lemma two_powi_less_imp:
  assumes "(2::rat) powi a < 2 powi b"
  shows "a < b"
proof (rule ccontr)
  assume "\<not> a < b"
  then have "b \<le> a" by simp
  then have "(2::rat) powi b \<le> 2 powi a" by (rule power_int_increasing) simp
  with assms show False by simp
qed

lemma ilog2_unique:
  assumes "0 < x" "2 powi e \<le> x" "x < 2 powi (e + 1)"
  shows "ilog2 x = e"
proof -
  have b: "2 powi (ilog2 x) \<le> x" "x < 2 powi (ilog2 x + 1)" using ilog2_bounds[OF assms(1)] by auto
  have "(2::rat) powi e < 2 powi (ilog2 x + 1)" using assms(2) b(2) by linarith
  then have 1: "e < ilog2 x + 1" by (rule two_powi_less_imp)
  have "(2::rat) powi (ilog2 x) < 2 powi (e + 1)" using assms(3) b(1) by linarith
  then have 2: "ilog2 x < e + 1" by (rule two_powi_less_imp)
  show ?thesis using 1 2 by linarith
qed

lemma round_half_even_of_int: "round_half_even (of_int k) = k"
  by (simp add: round_half_even_def)

lemma round_half_even_cases:
  "round_half_even x = \<lfloor>x\<rfloor> \<or> round_half_even x = \<lfloor>x\<rfloor> + 1"
  by (simp add: round_half_even_def Let_def)

lemma round_half_even_floor_less:
  assumes "\<lfloor>x\<rfloor> < \<lfloor>y\<rfloor>"
  shows "round_half_even x \<le> round_half_even y"
proof -
  have "round_half_even x \<le> \<lfloor>x\<rfloor> + 1" using round_half_even_cases[of x] by auto
  moreover have "\<lfloor>y\<rfloor> \<le> round_half_even y" using round_half_even_cases[of y] by auto
  ultimately show ?thesis using assms by linarith
qed

lemma round_half_even_mono:
  assumes "x \<le> y"
  shows "round_half_even x \<le> round_half_even y"
proof (cases "\<lfloor>x\<rfloor> < \<lfloor>y\<rfloor>")
  case True
  then show ?thesis by (rule round_half_even_floor_less)
next
  case False
  then have eq: "\<lfloor>x\<rfloor> = \<lfloor>y\<rfloor>" using floor_mono[OF assms] by simp
  have d: "x - of_int \<lfloor>y\<rfloor> \<le> y - of_int \<lfloor>y\<rfloor>" using assms by simp
  show ?thesis using d by (auto simp: round_half_even_def Let_def eq)
qed

lemma round_half_even_ge:
  assumes "of_int a \<le> x"
  shows "a \<le> round_half_even x"
  using round_half_even_mono[OF assms] by (simp add: round_half_even_of_int)

lemma round_half_even_le:
  assumes "x \<le> of_int b"
  shows "round_half_even x \<le> b"
  using round_half_even_mono[OF assms] by (simp add: round_half_even_of_int)

text \<open>Positive arguments of \<open>round_double\<close>.\<close>

lemma round_double_pos:
  assumes "0 < x"
  shows "round_double x = of_int (round_half_even (x / 2 powi (ilog2 x - 52))) * 2 powi (ilog2 x - 52)"
  using assms by (simp add: round_double_def round_binary_def Let_def)

lemma round_double_0: "round_double 0 = 0"
  by (simp add: round_double_def round_binary_def)

lemma scaled_bounds:
  assumes "0 < x"
  shows "2 ^ 52 \<le> x / 2 powi (ilog2 x - 52)" "x / 2 powi (ilog2 x - 52) \<le> 2 ^ 53"
proof -
  define e where "e = ilog2 x"
  have b: "2 powi e \<le> x" "x < 2 powi (e + 1)" using ilog2_bounds[OF assms] by (auto simp: e_def)
  have u: "(0::rat) < 2 powi (e - 52)" by (simp add: zero_less_power_int)
  have 1: "(2::rat) powi e = 2 ^ 52 * 2 powi (e - 52)"
    using power_int_add[of "2::rat" 52 "e - 52"] by simp
  have 2: "(2::rat) powi (e + 1) = 2 ^ 53 * 2 powi (e - 52)"
    using power_int_add[of "2::rat" 53 "e - 52"] by (simp add: add.commute)
  show "2 ^ 52 \<le> x / 2 powi (ilog2 x - 52)"
    using b(1) u unfolding 1 e_def[symmetric] by (simp add: pos_le_divide_eq)
  show "x / 2 powi (ilog2 x - 52) \<le> 2 ^ 53"
    using b(2) u unfolding 2 e_def[symmetric] by (simp add: pos_divide_le_eq)
qed

lemma round_double_bounds:
  assumes "0 < x"
  shows "2 powi (ilog2 x) \<le> round_double x" "round_double x \<le> 2 powi (ilog2 x + 1)"
proof -
  define e where "e = ilog2 x"
  define r where "r = round_half_even (x / 2 powi (e - 52))"
  have u: "(0::rat) < 2 powi (e - 52)" by (simp add: zero_less_power_int)
  have "of_int (2 ^ 52) \<le> x / 2 powi (e - 52)" using scaled_bounds(1)[OF assms] by (simp add: e_def)
  then have lo: "2 ^ 52 \<le> r" unfolding r_def by (rule round_half_even_ge)
  have "x / 2 powi (e - 52) \<le> of_int (2 ^ 53)" using scaled_bounds(2)[OF assms] by (simp add: e_def)
  then have hi: "r \<le> 2 ^ 53" unfolding r_def by (rule round_half_even_le)
  have rd: "round_double x = of_int r * 2 powi (e - 52)"
    using round_double_pos[OF assms] by (simp add: r_def e_def)
  have 1: "(2::rat) powi e = 2 ^ 52 * 2 powi (e - 52)"
    using power_int_add[of "2::rat" 52 "e - 52"] by simp
  have 2: "(2::rat) powi (e + 1) = 2 ^ 53 * 2 powi (e - 52)"
    using power_int_add[of "2::rat" 53 "e - 52"] by (simp add: add.commute)
  have "(2 ^ 52 :: rat) \<le> of_int r" using lo by (metis of_int_le_iff of_int_numeral of_int_power)
  then show "2 powi (ilog2 x) \<le> round_double x"
    unfolding rd e_def[symmetric] 1 using u by (intro mult_right_mono) simp_all
  have "of_int r \<le> (2 ^ 53 :: rat)" using hi by (metis of_int_le_iff of_int_numeral of_int_power)
  then show "round_double x \<le> 2 powi (ilog2 x + 1)"
    unfolding rd e_def[symmetric] 2 using u by (intro mult_right_mono) simp_all
qed

lemma ilog2_mono:
  assumes "0 < x" "x \<le> y"
  shows "ilog2 x \<le> ilog2 y"
proof -
  have "0 < y" using assms by simp
  then have "y < 2 powi (ilog2 y + 1)" using ilog2_bounds by blast
  moreover have "2 powi (ilog2 x) \<le> x" using ilog2_bounds[OF assms(1)] by blast
  ultimately have "(2::rat) powi (ilog2 x) < 2 powi (ilog2 y + 1)" using assms(2) by linarith
  then have "ilog2 x < ilog2 y + 1" by (rule two_powi_less_imp)
  then show ?thesis by simp
qed

lemma round_double_mono_pos:
  assumes "0 < x" "x \<le> y"
  shows "round_double x \<le> round_double y"
proof -
  have y: "0 < y" using assms by simp
  have le: "ilog2 x \<le> ilog2 y" using assms by (rule ilog2_mono)
  show ?thesis
  proof (cases "ilog2 x = ilog2 y")
    case True
    have u: "(0::rat) < 2 powi (ilog2 y - 52)" by (simp add: zero_less_power_int)
    have "x / 2 powi (ilog2 y - 52) \<le> y / 2 powi (ilog2 y - 52)"
      using assms(2) u by (simp add: divide_right_mono)
    then have "round_half_even (x / 2 powi (ilog2 y - 52)) \<le> round_half_even (y / 2 powi (ilog2 y - 52))"
      by (rule round_half_even_mono)
    then have "(of_int (round_half_even (x / 2 powi (ilog2 y - 52))) :: rat)
               \<le> of_int (round_half_even (y / 2 powi (ilog2 y - 52)))"
      by (simp only: of_int_le_iff)
    then show ?thesis
      unfolding round_double_pos[OF assms(1)] round_double_pos[OF y] True
      using u by (intro mult_right_mono) simp_all
  next
    case False
    then have "ilog2 x + 1 \<le> ilog2 y" using le by simp
    then have "(2::rat) powi (ilog2 x + 1) \<le> 2 powi (ilog2 y)" by (rule power_int_increasing) simp
    then show ?thesis
      using round_double_bounds(2)[OF assms(1)] round_double_bounds(1)[OF y] by linarith
  qed
qed

lemma round_double_nonneg:
  assumes "0 \<le> x"
  shows "0 \<le> round_double x"
proof (cases "x = 0")
  case True
  then show ?thesis by (simp add: round_double_0)
next
  case False
  then have x: "0 < x" using assms by simp
  have "(0::rat) \<le> 2 powi (ilog2 x)" by (simp add: zero_le_power_int)
  then show ?thesis using round_double_bounds(1)[OF x] by linarith
qed

lemma round_double_mono:
  assumes "0 \<le> x" "x \<le> y"
  shows "round_double x \<le> round_double y"
proof (cases "x = 0")
  case True
  have "0 \<le> y" using assms by simp
  then show ?thesis using True by (simp add: round_double_0 round_double_nonneg)
next
  case False
  then have "0 < x" using assms by simp
  then show ?thesis using assms(2) by (rule round_double_mono_pos)
qed

lemma round_double_twice:
  assumes "0 \<le> x"
  shows "round_double (2 * x) = 2 * round_double x"
proof (cases "x = 0")
  case True
  then show ?thesis by (simp add: round_double_0)
next
  case False
  then have x: "0 < x" using assms by simp
  then have x2: "0 < 2 * x" by simp
  have b: "2 powi (ilog2 x) \<le> x" "x < 2 powi (ilog2 x + 1)" using ilog2_bounds[OF x] by auto
  have p: "\<And>n. (2::rat) powi (n + 1) = 2 * 2 powi n"
    by (simp add: power_int_add_1)
  have "2 * x < 2 * 2 powi (ilog2 x + 1)" using b(2) by simp
  then have b2: "2 * x < 2 powi (ilog2 x + 1 + 1)" by (simp only: p)
  have "2 * 2 powi (ilog2 x) \<le> 2 * x" using b(1) by simp
  then have b1: "2 powi (ilog2 x + 1) \<le> 2 * x" by (simp only: p)
  have e: "ilog2 (2 * x) = ilog2 x + 1"
    using x2 b1 b2 by (rule ilog2_unique)
  have "ilog2 x + 1 - 52 = (ilog2 x - 52) + 1" by simp
  then have u: "(2::rat) powi (ilog2 x + 1 - 52) = 2 * 2 powi (ilog2 x - 52)"
    by (simp only: p)
  show ?thesis
    unfolding round_double_pos[OF x2] round_double_pos[OF x] e u by simp
qed

lemma round_double_exact:
  assumes "0 \<le> n" "n < 2 ^ 53"
  shows "round_double (of_int n * 2 powi j) = of_int n * 2 powi j"
proof (cases "n = 0")
  case True
  then show ?thesis by (simp add: round_double_0)
next
  case False
  then have n: "0 < n" using assms by simp
  define x :: rat where "x = of_int n * 2 powi j"
  have pj: "(0::rat) < 2 powi j" by (simp add: zero_less_power_int)
  have x: "0 < x" using n pj by (simp add: x_def)
  define e where "e = ilog2 x"
  have "(of_int n :: rat) < of_int (2 ^ 53)" using assms(2) by (simp only: of_int_less_iff)
  then have "x < 2 ^ 53 * 2 powi j" using pj by (simp add: x_def)
  also have "\<dots> = 2 powi (53 + j)" using power_int_add[of "2::rat" 53 j] by simp
  finally have "(2::rat) powi e < 2 powi (53 + j)" using ilog2_bounds[OF x] by (simp add: e_def)
  then have "e < 53 + j" by (rule two_powi_less_imp)
  then have d: "0 \<le> j - (e - 52)" by simp
  have "(2::rat) powi j = 2 powi (j - (e - 52)) * 2 powi (e - 52)"
    using power_int_add[of "2::rat" "j - (e - 52)" "e - 52"] by simp
  also have "(2::rat) powi (j - (e - 52)) = 2 ^ nat (j - (e - 52))"
    using d by (rule power_int_nonneg_exp)
  finally have pj2: "(2::rat) powi j = 2 ^ nat (j - (e - 52)) * 2 powi (e - 52)" .
  have u: "(2::rat) powi (e - 52) \<noteq> 0" by simp
  have "x / 2 powi (e - 52) = of_int (n * 2 ^ nat (j - (e - 52)))"
    unfolding x_def pj2 using u by simp
  then have "round_half_even (x / 2 powi (e - 52)) = n * 2 ^ nat (j - (e - 52))"
    by (simp only: round_half_even_of_int)
  then have "round_double x = of_int (n * 2 ^ nat (j - (e - 52))) * 2 powi (e - 52)"
    using round_double_pos[OF x] by (simp add: e_def)
  also have "\<dots> = x" unfolding x_def pj2 by simp
  finally show ?thesis by (simp add: x_def)
qed

subsection \<open>The constants and the threshold\<close>

lemma VALID_SAMPLE_THRESHOLD_val: "VALID_SAMPLE_THRESHOLD = 9227469 / 8388608"
  by code_simp

lemma nvals_threshold_val: "nvals_threshold = Some 409"
  by code_simp

lemma silence_scan_i_val: "silence_scan_i = 96000"
  by code_simp

lemma data_scan_i_val: "data_scan_i = 288000"
  by code_simp

lemma chunk_len_val: "chunk_len = 4096"
  by (simp add: chunk_len_def OUT_NSAMPLES_def NCHANNELS_def)

lemma INITIAL_SKIP_S_val: "INITIAL_SKIP_S = 1 / 2"
  by code_simp

lemma SILENCE_TRAINING_S_val: "SILENCE_TRAINING_S = 1"
  by code_simp

lemma VALID_SAMPLES_PERCENT_val: "VALID_SAMPLES_PERCENT = 10"
  by code_simp

lemma silence_threshold_of_nonneg:
  assumes "0 \<le> m"
  shows "silence_threshold_of m =
           (if \<lfloor>round_double (of_int m * VALID_SAMPLE_THRESHOLD)\<rfloor> < 2 ^ 31
            then Some \<lfloor>round_double (of_int m * VALID_SAMPLE_THRESHOLD)\<rfloor> else None)"
proof -
  have "(0::rat) \<le> of_int m * VALID_SAMPLE_THRESHOLD"
    using assms by (simp add: VALID_SAMPLE_THRESHOLD_val)
  then have r: "0 \<le> round_double (of_int m * VALID_SAMPLE_THRESHOLD)" by (rule round_double_nonneg)
  then have f: "0 \<le> \<lfloor>round_double (of_int m * VALID_SAMPLE_THRESHOLD)\<rfloor>" by simp
  show ?thesis
    using r f by (simp add: silence_threshold_of_def double_to_int32_def double_mul_def trunc_def Let_def)
qed

lemma silence_threshold_of_exact:
  assumes "0 \<le> m" "m \<le> 976128909"
  shows "silence_threshold_of m = Some \<lfloor>of_int m * (9227469 / 8388608 :: rat)\<rfloor>"
proof -
  have n: "0 \<le> m * 9227469" "m * 9227469 < 2 ^ 53" using assms by simp_all
  have eq: "of_int m * VALID_SAMPLE_THRESHOLD = of_int (m * 9227469) * 2 powi (- 23)"
    by (simp add: VALID_SAMPLE_THRESHOLD_val power_int_minus)
  have rd: "round_double (of_int m * VALID_SAMPLE_THRESHOLD) = of_int m * (9227469 / 8388608)"
    unfolding eq using round_double_exact[OF n, of "- 23"] by (simp add: power_int_minus)
  have "of_int m * (9227469 / 8388608 :: rat) \<le> of_int m * 2"
    using assms(1) by (intro mult_left_mono) simp_all
  also have "\<dots> = of_int (m * 2)" by simp
  finally have "\<lfloor>of_int m * (9227469 / 8388608 :: rat)\<rfloor> \<le> \<lfloor>of_int (m * 2) :: rat\<rfloor>"
    by (rule floor_mono)
  then have "\<lfloor>of_int m * (9227469 / 8388608 :: rat)\<rfloor> \<le> m * 2" by (simp only: floor_of_int)
  then have "\<lfloor>of_int m * (9227469 / 8388608 :: rat)\<rfloor> < 2 ^ 31" using assms(2) by simp
  then show ?thesis by (simp add: silence_threshold_of_nonneg[OF assms(1)] rd)
qed

lemma silence_threshold_of_mono:
  assumes "0 \<le> m1" "m1 \<le> m2"
    and "silence_threshold_of m1 = Some t1" "silence_threshold_of m2 = Some t2"
  shows "t1 \<le> t2"
proof -
  have m2: "0 \<le> m2" using assms by simp
  have "(of_int m1 :: rat) * VALID_SAMPLE_THRESHOLD \<le> of_int m2 * VALID_SAMPLE_THRESHOLD"
    using assms(2) by (simp add: VALID_SAMPLE_THRESHOLD_val)
  moreover have "(0::rat) \<le> of_int m1 * VALID_SAMPLE_THRESHOLD"
    using assms(1) by (simp add: VALID_SAMPLE_THRESHOLD_val)
  ultimately have "round_double (of_int m1 * VALID_SAMPLE_THRESHOLD)
                   \<le> round_double (of_int m2 * VALID_SAMPLE_THRESHOLD)"
    by (intro round_double_mono)
  then have "\<lfloor>round_double (of_int m1 * VALID_SAMPLE_THRESHOLD)\<rfloor>
             \<le> \<lfloor>round_double (of_int m2 * VALID_SAMPLE_THRESHOLD)\<rfloor>"
    by (rule floor_mono)
  then show ?thesis
    using assms(3,4)
    by (simp add: silence_threshold_of_nonneg[OF assms(1)] silence_threshold_of_nonneg[OF m2]
             split: if_splits)
qed

lemma floor_twice:
  fixes y :: rat
  shows "\<lfloor>2 * y\<rfloor> = 2 * \<lfloor>y\<rfloor> \<or> \<lfloor>2 * y\<rfloor> = 2 * \<lfloor>y\<rfloor> + 1"
proof -
  have "of_int \<lfloor>y\<rfloor> \<le> y" "y < of_int \<lfloor>y\<rfloor> + 1" by linarith+
  then have "of_int (2 * \<lfloor>y\<rfloor>) \<le> 2 * y" "2 * y < of_int (2 * \<lfloor>y\<rfloor> + 2)" by simp_all
  then have "2 * \<lfloor>y\<rfloor> \<le> \<lfloor>2 * y\<rfloor>" "\<lfloor>2 * y\<rfloor> < 2 * \<lfloor>y\<rfloor> + 2"
    by (simp_all only: le_floor_iff floor_less_iff)
  then show ?thesis by linarith
qed

lemma silence_threshold_of_twice:
  assumes "0 \<le> m"
    and "silence_threshold_of m = Some t1" "silence_threshold_of (2 * m) = Some t2"
  shows "t2 = 2 * t1 \<or> t2 = 2 * t1 + 1"
proof -
  have m2: "0 \<le> 2 * m" using assms by simp
  have nn: "(0::rat) \<le> of_int m * VALID_SAMPLE_THRESHOLD"
    using assms(1) by (simp add: VALID_SAMPLE_THRESHOLD_val)
  have "of_int (2 * m) * VALID_SAMPLE_THRESHOLD = 2 * (of_int m * VALID_SAMPLE_THRESHOLD)" by simp
  then have "round_double (of_int (2 * m) * VALID_SAMPLE_THRESHOLD)
             = 2 * round_double (of_int m * VALID_SAMPLE_THRESHOLD)"
    using round_double_twice[OF nn] by (simp only:)
  moreover have "t1 = \<lfloor>round_double (of_int m * VALID_SAMPLE_THRESHOLD)\<rfloor>"
    using assms(2) by (simp add: silence_threshold_of_nonneg[OF assms(1)] split: if_splits)
  moreover have "t2 = \<lfloor>round_double (of_int (2 * m) * VALID_SAMPLE_THRESHOLD)\<rfloor>"
    using assms(3) unfolding silence_threshold_of_nonneg[OF m2] by (auto split: if_splits)
  ultimately show ?thesis
    using floor_twice[of "round_double (of_int m * VALID_SAMPLE_THRESHOLD)"] by simp
qed

subsection \<open>Recordings too short to calibrate\<close>

text \<open>
  C8. Processing ends in the fatal branch, with nothing classified, no random number drawn
  and nothing written, whenever the length of the buffer is at most
  \<open>secs2offs INITIAL_SKIP_S + secs2offs SILENCE_TRAINING_S\<close>, which is 288000 samples;
  a buffer of exactly that length is included.
\<close>

theorem too_short_is_fatal:
  assumes "int (length raw) \<le> secs2offs INITIAL_SKIP_S + secs2offs SILENCE_TRAINING_S"
  shows "process_raw_audio_file out raw w = (Inl Too_short, w)
       \<and> secs2offs INITIAL_SKIP_S + secs2offs SILENCE_TRAINING_S = 288000"
proof -
  have d: "data_scan_i = secs2offs INITIAL_SKIP_S + secs2offs SILENCE_TRAINING_S"
    by (simp add: data_scan_i_def silence_scan_i_def)
  have "process_raw_audio_file out raw w = (Inl Too_short, w)"
    using assms by (simp add: process_raw_audio_file_def d[symmetric])
  moreover have "secs2offs INITIAL_SKIP_S + secs2offs SILENCE_TRAINING_S = 288000"
    using data_scan_i_val by (simp add: d)
  ultimately show ?thesis by simp
qed

theorem too_short_is_fatal_witness:
  "int (length (replicate 288000 (0::int32)))
     \<le> secs2offs INITIAL_SKIP_S + secs2offs SILENCE_TRAINING_S
   \<and> process_raw_audio_file (Silence_output ''rec/output-silence.raw'' ''out'')
       (replicate 288000 0) (const_world 99)
     = (Inl Too_short, const_world 99)"
proof -
  have h: "int (length (replicate 288000 (0::int32)))
             \<le> secs2offs INITIAL_SKIP_S + secs2offs SILENCE_TRAINING_S"
    using data_scan_i_val by (simp add: data_scan_i_def silence_scan_i_def)
  show ?thesis using h too_short_is_fatal[OF h] by simp
qed

subsection \<open>Loops that store into an array\<close>

lemma fold_update_length:
  "length (fold (\<lambda>c d. d[f c := g c d]) cs d) = length d"
  by (induction cs arbitrary: d) simp_all

lemma fold_update_miss:
  "j \<notin> f ` set cs \<Longrightarrow> fold (\<lambda>c d. d[f c := g c d]) cs d ! j = d ! j"
  by (induction cs arbitrary: d) simp_all

lemma fold_update_hit:
  assumes "distinct (map f cs)" "c \<in> set cs" "f c < length d"
  shows "fold (\<lambda>c d. d[f c := g c]) cs d ! f c = g c"
  using assms
proof (induction cs arbitrary: d)
  case Nil
  then show ?case by simp
next
  case (Cons a cs)
  show ?case
  proof (cases "c = a")
    case True
    have "f a \<notin> f ` set cs" using Cons.prems(1) by simp
    then show ?thesis using Cons.prems(3) True by (simp add: fold_update_miss)
  next
    case False
    then have "c \<in> set cs" using Cons.prems(2) by simp
    moreover have "distinct (map f cs)" using Cons.prems(1) by simp
    moreover have "f c < length (d[f a := g a])" using Cons.prems(3) by simp
    ultimately show ?thesis using Cons.IH by simp
  qed
qed

lemma fold_fold_product:
  "fold (\<lambda>s. fold (F s) cs) ss = fold (\<lambda>(s, c). F s c) (List.product ss cs)"
proof (induction ss)
  case Nil
  then show ?case by simp
next
  case (Cons s ss)
  have "fold (\<lambda>(s, c). F s c) (map (Pair s) cs) = fold (F s) cs"
    by (simp add: fold_map comp_def)
  then show ?case using Cons.IH by simp
qed

subsection \<open>Index arithmetic within a frame\<close>

lemma shift_back_sum: "r + (8 - r mod 8) = 8 * (r div 8) + (8::nat)"
proof -
  have "r = 8 * (r div 8) + r mod 8" by simp
  moreover have "r mod 8 < 8" by simp
  ultimately show ?thesis by linarith
qed

lemma mod8_shift_back:
  assumes "x < (8::nat)"
  shows "((x + r) mod 8 + (8 - r mod 8)) mod 8 = x"
proof -
  have 1: "((x + r) mod 8 + (8 - r mod 8)) mod 8 = (x + r + (8 - r mod 8)) mod 8"
    by (rule mod_add_left_eq)
  have 2: "x + r + (8 - r mod 8) = x + 8 * (r div 8 + 1)"
    using shift_back_sum[of r] by simp
  have 3: "(x + 8 * (r div 8 + 1)) mod 8 = x mod 8" by (rule mod_mult_self2)
  show ?thesis using assms by (simp only: 1 2 3 mod_less)
qed

lemma mod8_shift_forth:
  assumes "x < (8::nat)"
  shows "((x + (8 - r mod 8)) mod 8 + r) mod 8 = x"
proof -
  have 1: "((x + (8 - r mod 8)) mod 8 + r) mod 8 = (x + (8 - r mod 8) + r) mod 8"
    by (rule mod_add_left_eq)
  have 2: "x + (8 - r mod 8) + r = x + 8 * (r div 8 + 1)"
    using shift_back_sum[of r] by simp
  have 3: "(x + 8 * (r div 8 + 1)) mod 8 = x mod 8" by (rule mod_mult_self2)
  show ?thesis using assms by (simp only: 1 2 3 mod_less)
qed

lemma frame_index_eq:
  assumes "x < (8::nat)" "y < 8" "k * 8 + x = l * 8 + y"
  shows "k = l \<and> x = y"
proof -
  have "(k * 8 + x) div 8 = k" "(l * 8 + y) div 8 = l" using assms by simp_all
  then have "k = l" using assms(3) by simp
  then show ?thesis using assms(3) by simp
qed

lemma frame_index_split: "j div 8 * 8 + j mod 8 = (j::nat)"
  by simp

subsection \<open>Rotation of the channels\<close>

lemma frame_starts_set: "set frame_starts = {k * 8 | k. k < 512}"
  by (auto simp: frame_starts_def NCHANNELS_def OUT_NSAMPLES_def)

lemma frame_starts_distinct: "distinct frame_starts"
  by (simp add: frame_starts_def NCHANNELS_def distinct_map inj_on_def)

lemma rotate_channels_product:
  "rotate_channels data arr r =
     fold (\<lambda>p d. d[fst p + (snd p + r) mod 8 := arr ! (fst p + snd p)])
       (List.product frame_starts [0..<8]) data"
  by (simp add: rotate_channels_def NCHANNELS_def fold_fold_product case_prod_unfold)

lemma rotate_index_inj:
  "inj_on (\<lambda>p. fst p + (snd p + r) mod 8) (set frame_starts \<times> {0..<8})"
proof (rule inj_onI)
  fix p q :: "nat \<times> nat"
  assume p: "p \<in> set frame_starts \<times> {0..<8}"
    and q: "q \<in> set frame_starts \<times> {0..<8}"
    and eq: "fst p + (snd p + r) mod 8 = fst q + (snd q + r) mod 8"
  obtain k c where pk: "p = (k * 8, c)" "c < 8" using p by (auto simp: frame_starts_set)
  obtain l e where ql: "q = (l * 8, e)" "e < 8" using q by (auto simp: frame_starts_set)
  have "k * 8 + (c + r) mod 8 = l * 8 + (e + r) mod 8" using eq pk ql by simp
  then have kl: "k = l \<and> (c + r) mod 8 = (e + r) mod 8"
    by (intro frame_index_eq) simp_all
  have "c = ((c + r) mod 8 + (8 - r mod 8)) mod 8" using pk(2) by (simp only: mod8_shift_back)
  also have "\<dots> = ((e + r) mod 8 + (8 - r mod 8)) mod 8" using kl by simp
  also have "\<dots> = e" using ql(2) by (simp only: mod8_shift_back)
  finally show "p = q" using pk ql kl by simp
qed

lemma rotate_channels_length [simp]:
  "length (rotate_channels data arr r) = length data"
  by (simp only: rotate_channels_product fold_update_length)

lemma rotate_channels_nth:
  assumes "length data = OUT_DATASET_NWORDS" "k < OUT_NSAMPLES" "c < NCHANNELS"
  shows "rotate_channels data arr r ! (k * NCHANNELS + (c + r) mod NCHANNELS)
           = arr ! (k * NCHANNELS + c)"
proof -
  have k: "k < 512" and c: "c < 8" using assms by (simp_all add: OUT_NSAMPLES_def NCHANNELS_def)
  have len: "length data = 4096"
    using assms(1) by (simp add: OUT_DATASET_NWORDS_def OUT_NSAMPLES_def NCHANNELS_def)
  let ?ps = "List.product frame_starts [0..<8]"
  let ?f = "\<lambda>p :: nat \<times> nat. fst p + (snd p + r) mod 8"
  have d: "distinct (map ?f ?ps)"
    by (simp add: distinct_map rotate_index_inj distinct_product frame_starts_distinct)
  have m: "(k * 8, c) \<in> set ?ps" using k c by (auto simp: frame_starts_set)
  have "(c + r) mod 8 < 8" by simp
  then have b: "?f (k * 8, c) < length data" using k len by simp
  have "fold (\<lambda>p d. d[?f p := arr ! (fst p + snd p)]) ?ps data ! ?f (k * 8, c)
          = arr ! (fst (k * 8, c) + snd (k * 8, c))"
    using d m b by (rule fold_update_hit)
  then show ?thesis by (simp add: rotate_channels_product NCHANNELS_def)
qed

lemma rotate_channels_init:
  assumes "length d1 = OUT_DATASET_NWORDS" "length d2 = OUT_DATASET_NWORDS"
  shows "rotate_channels d1 arr r = rotate_channels d2 arr r"
proof (rule nth_equalityI)
  show "length (rotate_channels d1 arr r) = length (rotate_channels d2 arr r)"
    using assms by simp
next
  fix j
  assume "j < length (rotate_channels d1 arr r)"
  then have j: "j < 4096"
    using assms by (simp add: OUT_DATASET_NWORDS_def OUT_NSAMPLES_def NCHANNELS_def)
  define k where "k = j div 8"
  define c where "c = (j mod 8 + (8 - r mod 8)) mod 8"
  have k: "k < OUT_NSAMPLES" using j by (simp add: k_def OUT_NSAMPLES_def)
  have c: "c < NCHANNELS" by (simp add: c_def NCHANNELS_def)
  have "(c + r) mod 8 = j mod 8" unfolding c_def by (rule mod8_shift_forth) simp
  then have "k * 8 + (c + r) mod 8 = j" unfolding k_def by (simp only: frame_index_split)
  then have jj: "j = k * NCHANNELS + (c + r) mod NCHANNELS" by (simp add: NCHANNELS_def)
  show "rotate_channels d1 arr r ! j = rotate_channels d2 arr r ! j"
    unfolding jj
    by (simp only: rotate_channels_nth[OF assms(1) k c] rotate_channels_nth[OF assms(2) k c])
qed

lemma rotate_channels_inverse:
  assumes "length d1 = OUT_DATASET_NWORDS" "length d2 = OUT_DATASET_NWORDS"
    and "length arr = OUT_DATASET_NWORDS" "r < NCHANNELS"
  shows "rotate_channels d2 (rotate_channels d1 arr r) (NCHANNELS - r) = arr"
proof (rule nth_equalityI)
  show "length (rotate_channels d2 (rotate_channels d1 arr r) (NCHANNELS - r)) = length arr"
    using assms by simp
next
  fix j
  assume "j < length (rotate_channels d2 (rotate_channels d1 arr r) (NCHANNELS - r))"
  then have j: "j < 4096"
    using assms by (simp add: OUT_DATASET_NWORDS_def OUT_NSAMPLES_def NCHANNELS_def)
  have r: "r < 8" using assms(4) by (simp add: NCHANNELS_def)
  define k where "k = j div 8"
  define c' where "c' = j mod 8"
  define c where "c = (c' + r) mod 8"
  have k: "k < OUT_NSAMPLES" using j by (simp add: k_def OUT_NSAMPLES_def)
  have c: "c < NCHANNELS" by (simp add: c_def NCHANNELS_def)
  have c': "c' < NCHANNELS" by (simp add: c'_def NCHANNELS_def)
  have "((c' + r) mod 8 + (8 - r mod 8)) mod 8 = c'" by (rule mod8_shift_back) (simp add: c'_def)
  then have "(c + (8 - r)) mod 8 = j mod 8" using r by (simp add: c_def c'_def)
  then have "k * 8 + (c + (8 - r)) mod 8 = j" unfolding k_def by (simp only: frame_index_split)
  then have j1: "j = k * NCHANNELS + (c + (NCHANNELS - r)) mod NCHANNELS"
    by (simp add: NCHANNELS_def)
  have "k * 8 + c' = j" unfolding k_def c'_def by (rule frame_index_split)
  then have j2: "j = k * NCHANNELS + c'" by (simp add: NCHANNELS_def)
  have "rotate_channels d2 (rotate_channels d1 arr r) (NCHANNELS - r) ! j
          = rotate_channels d1 arr r ! (k * NCHANNELS + c)"
    by (subst j1) (rule rotate_channels_nth[OF assms(2) k c])
  also have "\<dots> = rotate_channels d1 arr r ! (k * NCHANNELS + (c' + r) mod NCHANNELS)"
    by (simp add: c_def NCHANNELS_def)
  also have "\<dots> = arr ! (k * NCHANNELS + c')"
    by (rule rotate_channels_nth[OF assms(1) k c'])
  finally show "rotate_channels d2 (rotate_channels d1 arr r) (NCHANNELS - r) ! j = arr ! j"
    using j2 by simp
qed

lemma rotate_index_bij:
  "bij_betw (\<lambda>c. (c + r) mod NCHANNELS) {..<NCHANNELS} {..<NCHANNELS}"
  unfolding NCHANNELS_def
proof (rule bij_betw_byWitness[where f' = "\<lambda>c. (c + (8 - r mod 8)) mod 8"])
  show "\<forall>a\<in>{..<8}. ((a + r) mod 8 + (8 - r mod 8)) mod 8 = a"
    by (intro ballI mod8_shift_back) simp
  show "\<forall>a'\<in>{..<8}. ((a' + (8 - r mod 8)) mod 8 + r) mod 8 = a'"
    by (intro ballI mod8_shift_forth) simp
  show "(\<lambda>c. (c + r) mod 8) ` {..<8} \<subseteq> {..<8}"
    by auto
  show "(\<lambda>c. (c + (8 - r mod 8)) mod 8) ` {..<8} \<subseteq> {..<8}"
    by auto
qed

subsection \<open>Differences from channel 0\<close>

lemma normalize_frame_nth:
  assumes "distinct cs" "0 \<notin> set cs" "j < length d" "\<forall>c\<in>set cs. si + c < length d"
  shows "fold (\<lambda>chi d. d[si + chi := d ! (si + chi) - d ! si]) cs d ! j
           = (if j \<in> (\<lambda>c. si + c) ` set cs then d ! j - d ! si else d ! j)"
  using assms
proof (induction cs arbitrary: d)
  case Nil
  then show ?case by simp
next
  case (Cons c cs)
  define d' where "d' = d[si + c := d ! (si + c) - d ! si]"
  have c0: "c \<noteq> 0" and cn: "c \<notin> set cs" using Cons.prems by auto
  have len: "length d' = length d" by (simp add: d'_def)
  have si: "d' ! si = d ! si" using c0 by (simp add: d'_def)
  have ih: "fold (\<lambda>chi d. d[si + chi := d ! (si + chi) - d ! si]) cs d' ! j
              = (if j \<in> (\<lambda>c. si + c) ` set cs then d' ! j - d' ! si else d' ! j)"
    using Cons.prems by (intro Cons.IH) (simp_all add: len)
  show ?case
  proof (cases "j = si + c")
    case True
    then have "j \<notin> (\<lambda>c. si + c) ` set cs" using cn by auto
    moreover have "d' ! j = d ! j - d ! si" using True Cons.prems(3) by (simp add: d'_def)
    ultimately show ?thesis using ih True by (simp add: d'_def[symmetric])
  next
    case False
    then have "d' ! j = d ! j" by (simp add: d'_def)
    then show ?thesis using ih False si by (auto simp: d'_def[symmetric])
  qed
qed

lemma normalize_frame_eq:
  assumes "si + 8 \<le> length d" "j < length d"
  shows "fold (\<lambda>chi d. d[si + chi := d ! (si + chi) - d ! si]) [1..<8] d ! j
           = (if si < j \<and> j < si + 8 then d ! j - d ! si else d ! j)"
proof -
  have "(j \<in> (\<lambda>c. si + c) ` set [1..<8]) = (si < j \<and> j < si + 8)"
  proof
    assume "j \<in> (\<lambda>c. si + c) ` set [1..<8]"
    then show "si < j \<and> j < si + 8" by auto
  next
    assume a: "si < j \<and> j < si + 8"
    then have "j = si + (j - si)" "j - si \<in> set [1..<8]" by auto
    then show "j \<in> (\<lambda>c. si + c) ` set [1..<8]" by (rule image_eqI)
  qed
  moreover have "\<forall>c\<in>set [1..<8]. si + c < length d" using assms(1) by auto
  ultimately show ?thesis
    using normalize_frame_nth[of "[1..<8]" j d si] assms(2) by simp
qed

lemma normalize_frames_nth:
  assumes "distinct ss" "\<forall>s\<in>set ss. 8 dvd s \<and> s + 8 \<le> length d" "j < length d"
  shows "fold (\<lambda>si. fold (\<lambda>chi d. d[si + chi := d ! (si + chi) - d ! si]) [1..<8]) ss d ! j
           = (if j mod 8 \<noteq> 0 \<and> j - j mod 8 \<in> set ss then d ! j - d ! (j - j mod 8) else d ! j)"
  using assms
proof (induction ss arbitrary: d)
  case Nil
  then show ?case by simp
next
  case (Cons s ss)
  define d' where "d' = fold (\<lambda>chi d. d[s + chi := d ! (s + chi) - d ! s]) [1..<8] d"
  have s: "8 dvd s" "s + 8 \<le> length d" "s \<notin> set ss" using Cons.prems by auto
  have len: "length d' = length d" by (simp add: d'_def fold_update_length)
  have d': "\<And>i. i < length d \<Longrightarrow> d' ! i = (if s < i \<and> i < s + 8 then d ! i - d ! s else d ! i)"
    unfolding d'_def using s(2) by (rule normalize_frame_eq)
  have fr: "j - j mod 8 < length d" using Cons.prems(3) by simp
  have in_frame: "(s < j \<and> j < s + 8) = (j mod 8 \<noteq> 0 \<and> j - j mod 8 = s)"
  proof -
    obtain m where m: "s = 8 * m" using s(1) by (auto simp: dvd_def)
    define q t where "q = j div 8" and "t = j mod 8"
    have j: "j = 8 * q + t" and t: "t < 8" by (simp_all add: q_def t_def)
    have tm: "j mod 8 = t" by (simp add: t_def)
    have e: "j - t = 8 * q" by (simp add: q_def t_def minus_mod_eq_mult_div)
    have k: "(8 * m < 8 * q + t \<and> 8 * q + t < 8 * m + 8) = (t \<noteq> 0 \<and> 8 * q = 8 * m)"
      using t by arith
    have "(8 * m < j \<and> j < 8 * m + 8) = (t \<noteq> 0 \<and> 8 * q = 8 * m)"
      using k by (simp only: j)
    then show ?thesis unfolding m tm e .
  qed
  have base: "\<not> (s < j - j mod 8 \<and> j - j mod 8 < s + 8)"
  proof -
    obtain m where m: "s = 8 * m" using s(1) by (auto simp: dvd_def)
    have e: "j - j mod 8 = 8 * (j div 8)" by (simp add: minus_mod_eq_mult_div)
    show ?thesis unfolding m e by auto
  qed
  have ih: "fold (\<lambda>si. fold (\<lambda>chi d. d[si + chi := d ! (si + chi) - d ! si]) [1..<8]) ss d' ! j
              = (if j mod 8 \<noteq> 0 \<and> j - j mod 8 \<in> set ss then d' ! j - d' ! (j - j mod 8) else d' ! j)"
    using Cons.prems by (intro Cons.IH) (simp_all add: len)
  have dj: "d' ! j = (if j mod 8 \<noteq> 0 \<and> j - j mod 8 = s then d ! j - d ! s else d ! j)"
    using d'[OF Cons.prems(3)] in_frame by simp
  have db: "d' ! (j - j mod 8) = d ! (j - j mod 8)"
    using d'[OF fr] base by simp
  have step: "fold (\<lambda>si. fold (\<lambda>chi d. d[si + chi := d ! (si + chi) - d ! si]) [1..<8]) (s # ss) d
                = fold (\<lambda>si. fold (\<lambda>chi d. d[si + chi := d ! (si + chi) - d ! si]) [1..<8]) ss d'"
    by (simp add: d'_def)
  show ?case
    unfolding step ih using dj db s(3) by auto
qed

lemma normalize_channels_length [simp]:
  "length (normalize_channels d) = length d"
proof -
  have "\<And>ss. length (fold (\<lambda>si. fold (\<lambda>chi d. d[si + chi := d ! (si + chi) - d ! si]) [1..<8]) ss d)
             = length d"
  proof -
    fix ss
    show "length (fold (\<lambda>si. fold (\<lambda>chi d. d[si + chi := d ! (si + chi) - d ! si]) [1..<8]) ss d)
            = length d"
      by (induction ss arbitrary: d) (simp_all add: fold_update_length)
  qed
  then show ?thesis by (simp add: normalize_channels_def NCHANNELS_def)
qed

lemma normalize_channels_nth:
  assumes "length d = OUT_DATASET_NWORDS" "j < OUT_DATASET_NWORDS"
  shows "normalize_channels d ! j = (if j mod 8 \<noteq> 0 then d ! j - d ! (j - j mod 8) else d ! j)"
proof -
  have len: "length d = 4096" and j: "j < 4096"
    using assms by (simp_all add: OUT_DATASET_NWORDS_def OUT_NSAMPLES_def NCHANNELS_def)
  have fs: "\<forall>s\<in>set frame_starts. 8 dvd s \<and> s + 8 \<le> length d"
    using len by (auto simp: frame_starts_set)
  have "j div 8 < 512" using j by simp
  moreover have "j - j mod 8 = j div 8 * 8" by (simp add: minus_mod_eq_div_mult)
  ultimately have m: "j - j mod 8 \<in> set frame_starts" unfolding frame_starts_set by blast
  have "j < length d" using j len by simp
  then show ?thesis
    using normalize_frames_nth[OF frame_starts_distinct fs, of j] m
    by (simp add: normalize_channels_def NCHANNELS_def)
qed

lemma variant_length [simp]: "length (variant arr r) = OUT_DATASET_NWORDS"
  by (simp add: variant_def)

subsection \<open>The channel transform\<close>

text \<open>
  C4. For a chunk \<open>arr\<close> of \<open>OUT_DATASET_NWORDS\<close> samples and a rotation offset
  \<open>r < NCHANNELS\<close>, the rotation loop puts the sample of channel \<open>c\<close> of every frame
  \<open>k\<close> at channel \<open>(c + r) mod NCHANNELS\<close> of the same frame, whatever the array held
  before; the map on channel indices is a bijection; and rotating the result by
  \<open>NCHANNELS - r\<close> gives the chunk back.
\<close>

theorem rotation_permutes_channels:
  assumes "length arr = OUT_DATASET_NWORDS" "r < NCHANNELS"
    and "length d1 = OUT_DATASET_NWORDS" "length d2 = OUT_DATASET_NWORDS"
  shows "(\<forall>k c. k < OUT_NSAMPLES \<and> c < NCHANNELS \<longrightarrow>
            rotate_channels d1 arr r ! (k * NCHANNELS + (c + r) mod NCHANNELS)
              = arr ! (k * NCHANNELS + c))
       \<and> bij_betw (\<lambda>c. (c + r) mod NCHANNELS) {..<NCHANNELS} {..<NCHANNELS}
       \<and> rotate_channels d2 (rotate_channels d1 arr r) (NCHANNELS - r) = arr"
proof (intro conjI allI impI)
  fix k c
  assume "k < OUT_NSAMPLES \<and> c < NCHANNELS"
  then show "rotate_channels d1 arr r ! (k * NCHANNELS + (c + r) mod NCHANNELS)
               = arr ! (k * NCHANNELS + c)"
    using assms(3) by (simp add: rotate_channels_nth)
next
  show "bij_betw (\<lambda>c. (c + r) mod NCHANNELS) {..<NCHANNELS} {..<NCHANNELS}"
    by (rule rotate_index_bij)
next
  show "rotate_channels d2 (rotate_channels d1 arr r) (NCHANNELS - r) = arr"
    using assms(3,4,1,2) by (rule rotate_channels_inverse)
qed

theorem rotation_permutes_channels_witness:
  "length (map of_nat [0..<4096] :: int32 list) = OUT_DATASET_NWORDS \<and> (3::nat) < NCHANNELS
   \<and> length (replicate 4096 (0::int32)) = OUT_DATASET_NWORDS
   \<and> rotate_channels (replicate 4096 0) (map of_nat [0..<4096]) 3 ! 10 = (15::int32)
   \<and> rotate_channels (replicate 4096 0)
        (rotate_channels (replicate 4096 0) (map of_nat [0..<4096]) 3) 5
       = (map of_nat [0..<4096] :: int32 list)"
proof -
  have h1: "length (map of_nat [0..<4096] :: int32 list) = OUT_DATASET_NWORDS"
    by (simp add: OUT_DATASET_NWORDS_def OUT_NSAMPLES_def NCHANNELS_def)
  have h2: "(3::nat) < NCHANNELS" by (simp add: NCHANNELS_def)
  have h3: "length (replicate 4096 (0::int32)) = OUT_DATASET_NWORDS"
    by (simp add: OUT_DATASET_NWORDS_def OUT_NSAMPLES_def NCHANNELS_def)
  note t = rotation_permutes_channels[OF h1 h2 h3 h3]
  have "(1::nat) < OUT_NSAMPLES \<and> (7::nat) < NCHANNELS"
    by (simp add: OUT_NSAMPLES_def NCHANNELS_def)
  then have "rotate_channels (replicate 4096 0) (map of_nat [0..<4096]) 3
               ! (1 * NCHANNELS + (7 + 3) mod NCHANNELS)
             = (map of_nat [0..<4096] :: int32 list) ! (1 * NCHANNELS + 7)"
    using t by blast
  then have a: "rotate_channels (replicate 4096 0) (map of_nat [0..<4096]) 3 ! 10 = (15::int32)"
    by (simp add: NCHANNELS_def)
  have b: "rotate_channels (replicate 4096 0)
             (rotate_channels (replicate 4096 0) (map of_nat [0..<4096]) 3) 5
           = (map of_nat [0..<4096] :: int32 list)"
    using t by (simp add: NCHANNELS_def)
  show ?thesis using h1 h2 h3 a b by simp
qed

lemma sint_difference:
  fixes a b :: int32
  assumes "- (2 ^ 31) \<le> sint a - sint b \<and> sint a - sint b < 2 ^ 31"
  shows "sint (a - b) = sint a - sint b"
  using assms by (simp add: sint_word_ariths signed_take_bit_int_eq_self)

text \<open>
  C3. In the variant of a chunk for rotation offset \<open>r\<close>, channel 0 of every frame \<open>k\<close>
  is the rotated sample of channel 0, and every channel \<open>c\<close> from 1 on is the rotated
  sample of channel \<open>c\<close> minus the rotated sample of channel 0 of that frame. The
  subtraction is that of \<open>int32_t\<close>; it is the difference of the two integers whenever
  that difference is representable in 32 bits.
\<close>

theorem variant_differential:
  assumes "k < OUT_NSAMPLES"
  shows "variant arr r ! (k * NCHANNELS)
           = rotate_channels (replicate OUT_DATASET_NWORDS 0) arr r ! (k * NCHANNELS)
       \<and> (\<forall>c. 1 \<le> c \<and> c < NCHANNELS \<longrightarrow>
            variant arr r ! (k * NCHANNELS + c)
              = rotate_channels (replicate OUT_DATASET_NWORDS 0) arr r ! (k * NCHANNELS + c)
                - rotate_channels (replicate OUT_DATASET_NWORDS 0) arr r ! (k * NCHANNELS))
       \<and> (\<forall>c. 1 \<le> c \<and> c < NCHANNELS
              \<and> - (2 ^ 31)
                  \<le> sint (rotate_channels (replicate OUT_DATASET_NWORDS 0) arr r ! (k * NCHANNELS + c))
                    - sint (rotate_channels (replicate OUT_DATASET_NWORDS 0) arr r ! (k * NCHANNELS))
              \<and> sint (rotate_channels (replicate OUT_DATASET_NWORDS 0) arr r ! (k * NCHANNELS + c))
                    - sint (rotate_channels (replicate OUT_DATASET_NWORDS 0) arr r ! (k * NCHANNELS))
                  < 2 ^ 31 \<longrightarrow>
            sint (variant arr r ! (k * NCHANNELS + c))
              = sint (rotate_channels (replicate OUT_DATASET_NWORDS 0) arr r ! (k * NCHANNELS + c))
                - sint (rotate_channels (replicate OUT_DATASET_NWORDS 0) arr r ! (k * NCHANNELS)))"
proof -
  define rot where "rot = rotate_channels (replicate OUT_DATASET_NWORDS 0) arr r"
  have len: "length rot = OUT_DATASET_NWORDS" by (simp add: rot_def)
  have k: "k < 512" using assms by (simp add: OUT_NSAMPLES_def)
  have n: "OUT_DATASET_NWORDS = 4096"
    by (simp add: OUT_DATASET_NWORDS_def OUT_NSAMPLES_def NCHANNELS_def)
  have v: "variant arr r = normalize_channels rot" by (simp add: variant_def rot_def)
  have "k * 8 < OUT_DATASET_NWORDS" using k by (simp add: n)
  then have 0: "variant arr r ! (k * 8) = rot ! (k * 8)"
    unfolding v by (simp add: normalize_channels_nth[OF len])
  have c: "variant arr r ! (k * 8 + c) = rot ! (k * 8 + c) - rot ! (k * 8)"
    if "1 \<le> c \<and> c < 8" for c
  proof -
    have j: "k * 8 + c < OUT_DATASET_NWORDS" using k that by (simp add: n)
    have m: "(k * 8 + c) mod 8 = c" using that by simp
    show ?thesis unfolding v normalize_channels_nth[OF len j] m using that by simp
  qed
  have s: "sint (variant arr r ! (k * 8 + c)) = sint (rot ! (k * 8 + c)) - sint (rot ! (k * 8))"
    if "1 \<le> c \<and> c < 8"
      and "- (2 ^ 31) \<le> sint (rot ! (k * 8 + c)) - sint (rot ! (k * 8))
           \<and> sint (rot ! (k * 8 + c)) - sint (rot ! (k * 8)) < 2 ^ 31" for c
    unfolding c[OF that(1)] using that(2) by (rule sint_difference)
  show ?thesis unfolding rot_def[symmetric] NCHANNELS_def using 0 c s by blast
qed

theorem variant_differential_witness:
  "(1::nat) < OUT_NSAMPLES
   \<and> variant (map of_nat [0..<4096]) 3 ! 8 = (13::int32)
   \<and> variant (map of_nat [0..<4096]) 3 ! 10 = (2::int32)
   \<and> sint (variant (map of_nat [0..<4096]) 3 ! 10) = 2"
proof -
  define arr :: "int32 list" where "arr = map of_nat [0..<4096]"
  define rot where "rot = rotate_channels (replicate OUT_DATASET_NWORDS 0) arr 3"
  have h: "(1::nat) < OUT_NSAMPLES" by (simp add: OUT_NSAMPLES_def)
  have l: "length (replicate OUT_DATASET_NWORDS (0::int32)) = OUT_DATASET_NWORDS" by simp
  have "rot ! (1 * NCHANNELS + (5 + 3) mod NCHANNELS) = arr ! (1 * NCHANNELS + 5)"
    unfolding rot_def using l h by (rule rotate_channels_nth) (simp add: NCHANNELS_def)
  then have r8: "rot ! 8 = 13" by (simp add: NCHANNELS_def arr_def)
  have "rot ! (1 * NCHANNELS + (7 + 3) mod NCHANNELS) = arr ! (1 * NCHANNELS + 7)"
    unfolding rot_def using l h by (rule rotate_channels_nth) (simp add: NCHANNELS_def)
  then have r10: "rot ! 10 = 15" by (simp add: NCHANNELS_def arr_def)
  note t = variant_differential[OF h, of arr 3, folded rot_def, unfolded NCHANNELS_def]
  have a: "variant arr 3 ! 8 = 13" using t r8 by simp
  have c: "1 \<le> (2::nat) \<and> (2::nat) < 8
           \<and> - (2 ^ 31) \<le> sint (rot ! (1 * 8 + 2)) - sint (rot ! (1 * 8))
           \<and> sint (rot ! (1 * 8 + 2)) - sint (rot ! (1 * 8)) < 2 ^ 31"
    by (simp add: r8 r10)
  have b: "variant arr 3 ! 10 = 2"
  proof -
    have "variant arr 3 ! (1 * 8 + 2) = rot ! (1 * 8 + 2) - rot ! (1 * 8)" using t c by blast
    then show ?thesis by (simp add: r8 r10)
  qed
  have d: "sint (variant arr 3 ! 10) = 2"
  proof -
    have "sint (variant arr 3 ! (1 * 8 + 2)) = sint (rot ! (1 * 8 + 2)) - sint (rot ! (1 * 8))"
      using t c by blast
    then show ?thesis by (simp add: r8 r10)
  qed
  show ?thesis using h a b d by (simp add: arr_def)
qed

subsection \<open>Output objects\<close>

lemma save_to_file_cases:
  "save_to_file s b p arr i w =
     (if rand_seq w (rand_calls w) mod 100 < OUT_DROP_PERCENT
      then (Inr (), w\<lparr>rand_calls := rand_calls w + 1\<rparr>)
      else case fs w \<lparr>dst_outbase = b, dst_path = p, dst_srcname = filename s, dst_chunk_i = i\<rparr> of
             Fs_ok \<Rightarrow>
               (Inr (), w\<lparr>rand_calls := rand_calls w + 1,
                          written := written w @
                            [(\<lparr>dst_outbase = b, dst_path = p, dst_srcname = filename s,
                                dst_chunk_i = i\<rparr>, take OUT_DATASET_NWORDS arr)]\<rparr>)
           | Fs_mkdir_fails \<Rightarrow>
               (Inl (Filesystem_error
                      \<lparr>dst_outbase = b, dst_path = p, dst_srcname = filename s, dst_chunk_i = i\<rparr>),
                w\<lparr>rand_calls := rand_calls w + 1\<rparr>)
           | Fs_open_fails \<Rightarrow>
               (Inl (Open_failed
                      \<lparr>dst_outbase = b, dst_path = p, dst_srcname = filename s, dst_chunk_i = i\<rparr>),
                w\<lparr>rand_calls := rand_calls w + 1\<rparr>))"
  by (simp add: save_to_file_def Let_def split: fs_result.split)

text \<open>Every call draws one random number and can only append to the files written.\<close>

lemma save_to_file_effect:
  assumes "save_to_file s b p arr i w = (res, w')"
  shows "rand_calls w' = rand_calls w + 1 \<and> rand_seq w' = rand_seq w \<and> fs w' = fs w
       \<and> (\<exists>new. written w' = written w @ new)"
  using assms by (auto simp: save_to_file_cases split: if_splits fs_result.splits)

lemma save_variants_effect:
  assumes "save_variants s b dirs arr i rs w = (res, w')"
  shows "rand_seq w' = rand_seq w \<and> fs w' = fs w \<and> (\<exists>new. written w' = written w @ new)"
  using assms
proof (induction rs arbitrary: w)
  case Nil
  then show ?case by simp
next
  case (Cons r rs)
  obtain res1 w1 where s1: "save_to_file s b (dirs ! r) (variant arr r) i w = (res1, w1)"
    by (cases "save_to_file s b (dirs ! r) (variant arr r) i w")
  note e1 = save_to_file_effect[OF s1]
  show ?case
  proof (cases res1)
    case (Inl e)
    then have "w' = w1" using Cons.prems s1 by simp
    then show ?thesis using e1 by simp
  next
    case (Inr u)
    then have "save_variants s b dirs arr i rs w1 = (res, w')" using Cons.prems s1 by simp
    then have "rand_seq w' = rand_seq w1 \<and> fs w' = fs w1 \<and> (\<exists>new. written w' = written w1 @ new)"
      by (rule Cons.IH)
    then show ?thesis using e1 by auto
  qed
qed

text \<open>
  With every destination available, the loop over the microphone offsets \<open>i, ..., 7\<close>
  draws one number per offset and writes the variants whose draw is not below the drop
  percentage, in order.
\<close>

lemma save_variants_upt:
  assumes "\<forall>r<NCHANNELS. fs w (variant_dest s b dirs chunk_i r) = Fs_ok"
    and "i \<le> NCHANNELS"
  shows "save_variants s b dirs arr chunk_i [i..<NCHANNELS] w =
           (Inr (),
            w\<lparr>rand_calls := rand_calls w + (NCHANNELS - i),
              written := written w @
                map (\<lambda>r. (variant_dest s b dirs chunk_i r, variant arr r))
                  (filter (\<lambda>r. OUT_DROP_PERCENT \<le> rand_seq w (rand_calls w + (r - i)) mod 100)
                     [i..<NCHANNELS])\<rparr>)"
  using assms
proof (induction "NCHANNELS - i" arbitrary: i w)
  case 0
  then have "[i..<NCHANNELS] = []" by simp
  then show ?case using 0 by simp
next
  case (Suc n)
  then have i: "i < NCHANNELS" by simp
  then have upt: "[i..<NCHANNELS] = i # [Suc i..<NCHANNELS]" by (rule upt_conv_Cons)
  have ok: "fs w (variant_dest s b dirs chunk_i i) = Fs_ok" using Suc.prems(1) i by simp
  have vl: "take OUT_DATASET_NWORDS (variant arr i) = variant arr i" by simp
  define keep where "keep = (OUT_DROP_PERCENT \<le> rand_seq w (rand_calls w) mod 100)"
  define w1 where "w1 = (if keep
      then w\<lparr>rand_calls := rand_calls w + 1,
             written := written w @ [(variant_dest s b dirs chunk_i i, variant arr i)]\<rparr>
      else w\<lparr>rand_calls := rand_calls w + 1\<rparr>)"
  have s1: "save_to_file s b (dirs ! i) (variant arr i) chunk_i w = (Inr (), w1)"
    using ok by (simp add: save_to_file_cases variant_dest_def vl w1_def keep_def not_le)
  have w1: "rand_calls w1 = rand_calls w + 1" "rand_seq w1 = rand_seq w" "fs w1 = fs w"
    by (simp_all add: w1_def)
  have n: "n = NCHANNELS - Suc i" using Suc(2) by simp
  have ok1: "\<forall>r<NCHANNELS. fs w1 (variant_dest s b dirs chunk_i r) = Fs_ok"
    using Suc.prems(1) by (simp add: w1)
  have ih: "save_variants s b dirs arr chunk_i [Suc i..<NCHANNELS] w1 =
           (Inr (),
            w1\<lparr>rand_calls := rand_calls w1 + (NCHANNELS - Suc i),
              written := written w1 @
                map (\<lambda>r. (variant_dest s b dirs chunk_i r, variant arr r))
                  (filter (\<lambda>r. OUT_DROP_PERCENT \<le> rand_seq w1 (rand_calls w1 + (r - Suc i)) mod 100)
                     [Suc i..<NCHANNELS])\<rparr>)"
    using n ok1 i by (intro Suc(1)) simp_all
  have shift: "filter (\<lambda>r. OUT_DROP_PERCENT \<le> rand_seq w1 (rand_calls w1 + (r - Suc i)) mod 100)
                 [Suc i..<NCHANNELS]
               = filter (\<lambda>r. OUT_DROP_PERCENT \<le> rand_seq w (rand_calls w + (r - i)) mod 100)
                 [Suc i..<NCHANNELS]"
  proof (rule filter_cong[OF refl])
    fix r
    assume "r \<in> set [Suc i..<NCHANNELS]"
    then have "Suc i \<le> r" by simp
    then have "rand_calls w1 + (r - Suc i) = rand_calls w + (r - i)" using w1(1) by arith
    then show "(OUT_DROP_PERCENT \<le> rand_seq w1 (rand_calls w1 + (r - Suc i)) mod 100)
             = (OUT_DROP_PERCENT \<le> rand_seq w (rand_calls w + (r - i)) mod 100)"
      by (simp only: w1(2))
  qed
  let ?P = "\<lambda>r. OUT_DROP_PERCENT \<le> rand_seq w (rand_calls w + (r - i)) mod 100"
  let ?f = "\<lambda>r. (variant_dest s b dirs chunk_i r, variant arr r)"
  have "save_variants s b dirs arr chunk_i [i..<NCHANNELS] w
          = save_variants s b dirs arr chunk_i [Suc i..<NCHANNELS] w1"
    by (simp add: upt s1)
  then have step: "save_variants s b dirs arr chunk_i [i..<NCHANNELS] w
          = (Inr (), w1\<lparr>rand_calls := rand_calls w1 + (NCHANNELS - Suc i),
                         written := written w1 @ map ?f (filter ?P [Suc i..<NCHANNELS])\<rparr>)"
    by (simp only: ih shift)
  have cnt: "rand_calls w + 1 + (NCHANNELS - Suc i) = rand_calls w + (NCHANNELS - i)"
    using i by arith
  have Pi: "?P i = keep" by (simp add: keep_def)
  have fl: "filter ?P [i..<NCHANNELS] = (if keep then [i] else []) @ filter ?P [Suc i..<NCHANNELS]"
    unfolding upt using Pi by simp
  have "w1\<lparr>rand_calls := rand_calls w1 + (NCHANNELS - Suc i),
           written := written w1 @ map ?f (filter ?P [Suc i..<NCHANNELS])\<rparr>
        = w\<lparr>rand_calls := rand_calls w + (NCHANNELS - i),
            written := written w @ map ?f (filter ?P [i..<NCHANNELS])\<rparr>"
    unfolding fl w1_def using cnt by (cases keep) simp_all
  then show ?case using step by simp
qed

text \<open>
  C9. A submission to the directional output with the silence label returns false and
  leaves the world as it was: no random number is drawn and nothing is written. With the
  signal label, and every destination available, it makes \<open>NCHANNELS = 8\<close> write attempts,
  one per rotation offset \<open>r\<close> in increasing order; attempt \<open>r\<close> consumes one value of
  \<open>std::rand\<close>, reduces it modulo 100 and stores the variant for \<open>r\<close> in its directory
  exactly if the reduced value is at least \<open>OUT_DROP_PERCENT = 95\<close>. How the values of
  \<open>std::rand\<close> are distributed is a matter of the C library and not of this program.
\<close>

theorem dataset_output_writes:
  "save_chunk (Dataset_output s b dirs) arr chunk_i True w = (Inr False, w)
   \<and> ((\<forall>r<NCHANNELS. fs w (variant_dest s b dirs chunk_i r) = Fs_ok) \<longrightarrow>
        save_chunk (Dataset_output s b dirs) arr chunk_i False w =
          (Inr True,
           w\<lparr>rand_calls := rand_calls w + NCHANNELS,
             written := written w @
               map (\<lambda>r. (variant_dest s b dirs chunk_i r, variant arr r))
                 (filter (\<lambda>r. OUT_DROP_PERCENT \<le> rand_seq w (rand_calls w + r) mod 100)
                    [0..<NCHANNELS])\<rparr>))
   \<and> NCHANNELS = 8 \<and> OUT_DROP_PERCENT = 95"
proof (intro conjI impI)
  show "save_chunk (Dataset_output s b dirs) arr chunk_i True w = (Inr False, w)" by simp
next
  assume ok: "\<forall>r<NCHANNELS. fs w (variant_dest s b dirs chunk_i r) = Fs_ok"
  have "save_variants s b dirs arr chunk_i [0..<NCHANNELS] w =
           (Inr (),
            w\<lparr>rand_calls := rand_calls w + (NCHANNELS - 0),
              written := written w @
                map (\<lambda>r. (variant_dest s b dirs chunk_i r, variant arr r))
                  (filter (\<lambda>r. OUT_DROP_PERCENT \<le> rand_seq w (rand_calls w + (r - 0)) mod 100)
                     [0..<NCHANNELS])\<rparr>)"
    using ok by (rule save_variants_upt) simp
  then show "save_chunk (Dataset_output s b dirs) arr chunk_i False w =
          (Inr True,
           w\<lparr>rand_calls := rand_calls w + NCHANNELS,
             written := written w @
               map (\<lambda>r. (variant_dest s b dirs chunk_i r, variant arr r))
                 (filter (\<lambda>r. OUT_DROP_PERCENT \<le> rand_seq w (rand_calls w + r) mod 100)
                    [0..<NCHANNELS])\<rparr>)"
    by simp
next
  show "NCHANNELS = 8" by (simp add: NCHANNELS_def)
next
  show "OUT_DROP_PERCENT = 95" by (simp add: OUT_DROP_PERCENT_def)
qed

theorem dataset_output_writes_witness:
  "list_all (\<lambda>r. fs (ramp_world 97)
        (variant_dest ''rec/output-05.625deg-0elev-1.0m.raw'' ''out''
           [''5.625'', ''50.625'', ''95.625'', ''140.625'', ''185.625'', ''230.625'', ''275.625'',
            ''320.625'']
           288000 r) = Fs_ok) [0..<NCHANNELS]
   \<and> save_chunk
        (Dataset_output ''rec/output-05.625deg-0elev-1.0m.raw'' ''out''
           [''5.625'', ''50.625'', ''95.625'', ''140.625'', ''185.625'', ''230.625'', ''275.625'',
            ''320.625''])
        (map of_nat [0..<4096]) 288000 False (ramp_world 97)
      = (Inr True,
         (ramp_world 97)\<lparr>rand_calls := 8,
           written :=
             [(\<lparr>dst_outbase = ''out'', dst_path = ''5.625'',
                dst_srcname = ''output-05.625deg-0elev-1.0m.raw'', dst_chunk_i = 288000\<rparr>,
               variant (map of_nat [0..<4096]) 0),
              (\<lparr>dst_outbase = ''out'', dst_path = ''50.625'',
                dst_srcname = ''output-05.625deg-0elev-1.0m.raw'', dst_chunk_i = 288000\<rparr>,
               variant (map of_nat [0..<4096]) 1),
              (\<lparr>dst_outbase = ''out'', dst_path = ''95.625'',
                dst_srcname = ''output-05.625deg-0elev-1.0m.raw'', dst_chunk_i = 288000\<rparr>,
               variant (map of_nat [0..<4096]) 2)]\<rparr>)"
proof -
  define dirs where "dirs = [''5.625'', ''50.625'', ''95.625'', ''140.625'', ''185.625'',
                ''230.625'', ''275.625'', ''320.625'']"
  define src where "src = ''rec/output-05.625deg-0elev-1.0m.raw''"
  define arr :: "int32 list" where "arr = map of_nat [0..<4096]"
  have h: "\<forall>r<NCHANNELS. fs (ramp_world 97) (variant_dest src ''out'' dirs 288000 r) = Fs_ok"
    by (simp add: ramp_world_def)
  have u: "[0..<NCHANNELS] = [0, 1, 2, 3, 4, 5, 6, 7]"
    by (simp add: NCHANNELS_def upt_conv_Cons)
  have fl: "filter (\<lambda>r. OUT_DROP_PERCENT
                        \<le> rand_seq (ramp_world 97) (rand_calls (ramp_world 97) + r) mod 100)
              [0..<NCHANNELS] = [0, 1, 2]"
    unfolding u by (simp add: ramp_world_def OUT_DROP_PERCENT_def)
  have f: "filename src = ''output-05.625deg-0elev-1.0m.raw''"
    by (simp add: filename_def src_def)
  have d: "map (\<lambda>r. (variant_dest src ''out'' dirs 288000 r, variant arr r)) [0, 1, 2]
           = [(\<lparr>dst_outbase = ''out'', dst_path = ''5.625'',
                dst_srcname = ''output-05.625deg-0elev-1.0m.raw'', dst_chunk_i = 288000\<rparr>,
               variant arr 0),
              (\<lparr>dst_outbase = ''out'', dst_path = ''50.625'',
                dst_srcname = ''output-05.625deg-0elev-1.0m.raw'', dst_chunk_i = 288000\<rparr>,
               variant arr 1),
              (\<lparr>dst_outbase = ''out'', dst_path = ''95.625'',
                dst_srcname = ''output-05.625deg-0elev-1.0m.raw'', dst_chunk_i = 288000\<rparr>,
               variant arr 2)]"
    by (simp add: variant_dest_def f) (simp add: dirs_def)
  have w: "rand_calls (ramp_world 97) + NCHANNELS = 8" "written (ramp_world 97) = []"
    by (simp_all add: ramp_world_def NCHANNELS_def)
  have "save_chunk (Dataset_output src ''out'' dirs) arr 288000 False (ramp_world 97)
        = (Inr True, (ramp_world 97)\<lparr>rand_calls := 8,
             written := [] @ map (\<lambda>r. (variant_dest src ''out'' dirs 288000 r, variant arr r))
                              [0, 1, 2]\<rparr>)"
    using h dataset_output_writes[of src "''out''" dirs arr 288000 "ramp_world 97"]
    by (simp only: fl w)
  moreover have "list_all (\<lambda>r. fs (ramp_world 97) (variant_dest src ''out'' dirs 288000 r) = Fs_ok)
                   [0..<NCHANNELS]"
    using h by (simp add: list_all_iff)
  ultimately show ?thesis unfolding d by (simp add: src_def dirs_def arr_def)
qed

text \<open>
  C2 as stated does not hold: the silence output returns true for a chunk that the
  random drop discards, so that nothing is written.
\<close>

theorem save_chunk_true_without_write:
  "save_chunk (Silence_output ''rec/output-silence.raw'' ''out'') (replicate 4096 0) 288000 True
     (const_world 0)
   = (Inr True, (const_world 0)\<lparr>rand_calls := 1\<rparr>)
   \<and> written ((const_world 0)\<lparr>rand_calls := 1\<rparr>) = written (const_world 0)"
  by (simp add: save_to_file_def const_world_def OUT_DROP_PERCENT_def)

text \<open>
  C2, amended. The value that \<open>save_chunk\<close> returns tells whether the output object
  accepted the chunk, not whether a record reached the disk: the silence output returns
  true for every chunk, the directional output returns true exactly for the chunks that are
  not labelled silence, in both cases whatever the random drop decides. Hence a
  submission that wrote a record returned true, and one that returned false wrote nothing.
  A submission only ever appends to the files written.
\<close>

theorem save_chunk_result:
  assumes "save_chunk out arr chunk_i is_silence w = (Inr saved, w')"
  shows "(saved \<longleftrightarrow> (case out of Silence_output s b \<Rightarrow> True
                               | Dataset_output s b dirs \<Rightarrow> \<not> is_silence))
       \<and> (written w' \<noteq> written w \<longrightarrow> saved)
       \<and> (\<exists>new. written w' = written w @ new)"
proof (cases out)
  case (Silence_output s b)
  obtain res w1 where s1: "save_to_file s b ''silence'' arr chunk_i w = (res, w1)"
    by (cases "save_to_file s b ''silence'' arr chunk_i w")
  have "saved" "w' = w1"
    using assms Silence_output s1 by (cases res; simp)+
  then show ?thesis using save_to_file_effect[OF s1] Silence_output by simp
next
  case (Dataset_output s b dirs)
  show ?thesis
  proof (cases is_silence)
    case True
    then show ?thesis using assms Dataset_output by auto
  next
    case False
    obtain res w1 where s1: "save_variants s b dirs arr chunk_i [0..<NCHANNELS] w = (res, w1)"
      by (cases "save_variants s b dirs arr chunk_i [0..<NCHANNELS] w")
    have "saved" "w' = w1"
      using assms Dataset_output False s1 by (cases res; simp)+
    then show ?thesis using save_variants_effect[OF s1] Dataset_output False by simp
  qed
qed

theorem save_chunk_result_witness:
  "save_chunk (Silence_output ''rec/output-silence.raw'' ''out'') (replicate 4096 0) 288000 True
     (const_world 99)
   = (Inr True,
      (const_world 99)\<lparr>rand_calls := 1,
        written := [(\<lparr>dst_outbase = ''out'', dst_path = ''silence'',
                       dst_srcname = ''output-silence.raw'', dst_chunk_i = 288000\<rparr>,
                     replicate 4096 0)]\<rparr>)
   \<and> written ((const_world 99)\<lparr>rand_calls := 1,
        written := [(\<lparr>dst_outbase = ''out'', dst_path = ''silence'',
                       dst_srcname = ''output-silence.raw'', dst_chunk_i = 288000\<rparr>,
                     replicate 4096 0)]\<rparr>) \<noteq> written (const_world 99)
   \<and> (True \<longleftrightarrow> (case Silence_output ''rec/output-silence.raw'' ''out'' of
                      Silence_output s b \<Rightarrow> True | Dataset_output s b dirs \<Rightarrow> \<not> True))"
proof -
  have h: "save_chunk (Silence_output ''rec/output-silence.raw'' ''out'') (replicate 4096 0) 288000
             True (const_world 99)
           = (Inr True,
              (const_world 99)\<lparr>rand_calls := 1,
                written := [(\<lparr>dst_outbase = ''out'', dst_path = ''silence'',
                               dst_srcname = ''output-silence.raw'', dst_chunk_i = 288000\<rparr>,
                             replicate 4096 0)]\<rparr>)"
    by (simp add: save_to_file_def const_world_def OUT_DROP_PERCENT_def filename_def
          OUT_DATASET_NWORDS_def OUT_NSAMPLES_def NCHANNELS_def)
  show ?thesis using h save_chunk_result[OF h] by (simp add: const_world_def)
qed

subsection \<open>Counting and the largest magnitude\<close>

lemma count_if_fold:
  "fold (\<lambda>x n. if pred x then n + 1 else n) xs a = a + int (length (filter pred xs))"
  by (induction xs arbitrary: a) simp_all

lemma count_if_filter: "count_if pred xs = int (length (filter pred xs))"
  by (simp add: count_if_def count_if_fold)

lemma is_silence_of_filter:
  "is_silence_of thr n chunk = (n \<le> int (length (filter (cmp_to_threshold thr) chunk)))"
  by (simp add: is_silence_of_def count_if_filter)

lemma max_element_from_mem: "max_element_from cmp x xs \<in> set (x # xs)"
proof (induction xs arbitrary: x)
  case Nil
  then show ?case by simp
next
  case (Cons y ys)
  have "max_element_from cmp (if cmp x y then y else x) ys \<in> set ((if cmp x y then y else x) # ys)"
    by (rule Cons.IH)
  then show ?case by (auto split: if_splits)
qed

lemma max_element_from_abs_ge:
  assumes "y \<in> set (x # xs)"
  shows "\<bar>sint y\<bar> \<le> \<bar>sint (max_element_from int32_cmp_abs x xs)\<bar>"
  using assms
proof (induction xs arbitrary: x y)
  case Nil
  then show ?case by simp
next
  case (Cons z zs)
  define x' where "x' = (if int32_cmp_abs x z then z else x)"
  have x': "\<bar>sint x\<bar> \<le> \<bar>sint x'\<bar>" "\<bar>sint z\<bar> \<le> \<bar>sint x'\<bar>"
    by (auto simp: x'_def int32_cmp_abs_def labs_def)
  have "\<bar>sint x'\<bar> \<le> \<bar>sint (max_element_from int32_cmp_abs x' zs)\<bar>"
    by (rule Cons.IH) simp
  moreover have "y \<in> set zs \<Longrightarrow> \<bar>sint y\<bar> \<le> \<bar>sint (max_element_from int32_cmp_abs x' zs)\<bar>"
    by (rule Cons.IH) simp
  ultimately show ?case using Cons.prems x' by (auto simp: x'_def[symmetric])
qed

lemma max_element_abs_Max:
  assumes "max_element int32_cmp_abs xs = Some e"
  shows "\<bar>sint e\<bar> = Max ((\<lambda>v. \<bar>sint v\<bar>) ` set xs)"
proof (cases xs)
  case Nil
  then show ?thesis using assms by simp
next
  case (Cons x ys)
  then have e: "e = max_element_from int32_cmp_abs x ys" using assms by simp
  have "e \<in> set xs" unfolding e Cons by (rule max_element_from_mem)
  moreover have "\<And>y. y \<in> set xs \<Longrightarrow> \<bar>sint y\<bar> \<le> \<bar>sint e\<bar>"
    unfolding e Cons by (rule max_element_from_abs_ge)
  ultimately show ?thesis by (intro Max_eqI[symmetric]) auto
qed

lemma max_element_from_replicate:
  assumes "\<not> cmp x y"
  shows "max_element_from cmp x (replicate n y) = x"
  using assms by (induction n) simp_all

lemma buf_range_nth:
  assumes "0 \<le> b" "b \<le> e" "e \<le> int (length raw)"
  shows "buf_range raw b e = map (\<lambda>i. raw ! i) [nat b ..< nat e]"
proof (rule nth_equalityI)
  show "length (buf_range raw b e) = length (map (\<lambda>i. raw ! i) [nat b ..< nat e])"
    using assms by (simp add: buf_range_def)
next
  fix i
  assume "i < length (buf_range raw b e)"
  then have i: "i < nat (e - b)" by (simp add: buf_range_def)
  then have "nat b + i < nat e" using assms by linarith
  then show "buf_range raw b e ! i = map (\<lambda>i. raw ! i) [nat b ..< nat e] ! i"
    using i assms by (simp add: buf_range_def)
qed

lemma buf_range_length:
  assumes "0 \<le> b" "b \<le> e" "e \<le> int (length raw)"
  shows "length (buf_range raw b e) = nat (e - b)"
  using assms by (simp add: buf_range_def)

lemma abs_sint_le: "\<bar>sint (v :: int32)\<bar> \<le> 2 ^ 31"
  using sint_ge[of v] sint_lt[of v] by simp

lemma to_int32_id:
  assumes "0 \<le> x" "x < 2 ^ 31"
  shows "to_int32 x = x"
  using assms by (simp add: to_int32_def sint_sbintrunc' signed_take_bit_int_eq_self)

lemma to_int32_min: "to_int32 (2 ^ 31) = - (2 ^ 31)"
  by (simp add: to_int32_def)

lemma silence_threshold_of_min: "silence_threshold_of (- (2 ^ 31)) = None"
  by code_simp

lemma scan_order: "0 \<le> silence_scan_i" "silence_scan_i \<le> data_scan_i" "nat silence_scan_i < nat data_scan_i"
  by (simp_all add: silence_scan_i_val data_scan_i_val)

lemma window_peak_range:
  assumes "data_scan_i \<le> int (length raw)"
  shows "0 \<le> window_peak raw \<and> window_peak raw \<le> 2 ^ 31"
proof -
  let ?S = "(\<lambda>i. \<bar>sint (raw ! i)\<bar>) ` {nat silence_scan_i ..< nat data_scan_i}"
  have ne: "?S \<noteq> {}"
    using scan_order(3) by (simp only: image_is_empty atLeastLessThan_empty_iff not_not)
  have fin: "finite ?S" by simp
  have "window_peak raw \<in> ?S" unfolding window_peak_def using fin ne by (rule Max_in)
  then show ?thesis using abs_sint_le by auto
qed

lemma silence_max_of_window:
  assumes "data_scan_i \<le> int (length raw)"
  shows "silence_max_of raw = Some (to_int32 (window_peak raw))"
proof -
  have r: "buf_range raw silence_scan_i data_scan_i
             = map (\<lambda>i. raw ! i) [nat silence_scan_i ..< nat data_scan_i]"
    using scan_order(1,2) assms by (rule buf_range_nth)
  have "length (buf_range raw silence_scan_i data_scan_i) = nat data_scan_i - nat silence_scan_i"
    unfolding r by (simp only: length_map length_upt)
  then have "length (buf_range raw silence_scan_i data_scan_i) \<noteq> 0"
    using scan_order(3) by linarith
  then have "buf_range raw silence_scan_i data_scan_i \<noteq> []"
    by (simp only: length_0_conv not_False_eq_True)
  then obtain e where e: "max_element int32_cmp_abs (buf_range raw silence_scan_i data_scan_i) = Some e"
    by (cases "buf_range raw silence_scan_i data_scan_i") auto
  have "\<bar>sint e\<bar> = Max ((\<lambda>v. \<bar>sint v\<bar>) ` set (buf_range raw silence_scan_i data_scan_i))"
    using e by (rule max_element_abs_Max)
  also have "\<dots> = window_peak raw"
    unfolding r window_peak_def by (simp add: image_image)
  finally show ?thesis by (simp add: silence_max_of_def e labs_def)
qed

lemma silence_max_threshold_peak:
  assumes "data_scan_i \<le> int (length raw)"
    and "silence_max_of raw = Some m" "silence_threshold_of m = Some t"
  shows "m = window_peak raw \<and> 0 \<le> m"
proof -
  have m: "m = to_int32 (window_peak raw)"
    using assms(2) silence_max_of_window[OF assms(1)] by simp
  have rg: "0 \<le> window_peak raw" "window_peak raw \<le> 2 ^ 31"
    using window_peak_range[OF assms(1)] by simp_all
  have "window_peak raw \<noteq> 2 ^ 31"
  proof
    assume "window_peak raw = 2 ^ 31"
    then have "m = - (2 ^ 31)" using m to_int32_min by simp
    then show False using assms(3) silence_threshold_of_min by simp
  qed
  then have "window_peak raw < 2 ^ 31" using rg(2) by simp
  then show ?thesis using m rg(1) by (simp add: to_int32_id)
qed

lemma example_recording_length: "int (length (example_recording v rest)) = 288000 + int (length rest)"
  by (simp add: example_recording_def)

lemma example_recording_window:
  "buf_range (example_recording v rest) silence_scan_i data_scan_i = v # replicate 191999 0"
  by (simp add: example_recording_def buf_range_def silence_scan_i_val data_scan_i_val)

lemma example_recording_max:
  assumes "0 \<le> sint v"
  shows "silence_max_of (example_recording v rest) = Some (sint v)"
proof -
  have "\<not> int32_cmp_abs v 0" by (simp add: int32_cmp_abs_def labs_def)
  then have "max_element_from int32_cmp_abs v (replicate 191999 0) = v"
    by (rule max_element_from_replicate)
  moreover have "to_int32 (sint v) = sint v"
    using assms sint_lt[of v] by (intro to_int32_id) simp_all
  ultimately show ?thesis
    using assms by (simp add: silence_max_of_def example_recording_window labs_def)
qed

lemma window_peak_eq:
  assumes "data_scan_i \<le> int (length raw)" "silence_max_of raw = Some m" "0 \<le> m"
  shows "window_peak raw = m"
proof -
  have m: "m = to_int32 (window_peak raw)"
    using assms(2) silence_max_of_window[OF assms(1)] by simp
  have rg: "0 \<le> window_peak raw" "window_peak raw \<le> 2 ^ 31"
    using window_peak_range[OF assms(1)] by simp_all
  have "window_peak raw \<noteq> 2 ^ 31" using m assms(3) to_int32_min by auto
  then have "window_peak raw < 2 ^ 31" using rg(2) by simp
  then show ?thesis using m rg(1) by (simp add: to_int32_id)
qed

lemma example_recording_peak:
  assumes "0 \<le> sint v"
  shows "window_peak (example_recording v rest) = sint v"
  using _ example_recording_max[OF assms] assms
  by (rule window_peak_eq) (simp add: example_recording_length data_scan_i_val)

subsection \<open>The label of a chunk\<close>

text \<open>
  C1 as stated does not hold: of the 4096 samples of the chunk below exactly 409 reach the
  threshold 1; the chunk is labelled silence, yet 409 is below
  \<open>ceil (4096 * 10 / 100) = 410\<close>.
\<close>

theorem silence_label_below_ceiling:
  "nvals_threshold = Some 409
   \<and> length (replicate 409 (1::int32) @ replicate 3687 0) = OUT_NSAMPLES * NCHANNELS
   \<and> int (length (filter (cmp_to_threshold 1) (replicate 409 1 @ replicate 3687 0))) = 409
   \<and> is_silence_of 1 409 (replicate 409 1 @ replicate 3687 0)
   \<and> \<lceil>of_nat (OUT_NSAMPLES * NCHANNELS) * VALID_SAMPLES_PERCENT / 100\<rceil> = (410::int)"
proof -
  have c: "cmp_to_threshold 1 (1::int32)" "\<not> cmp_to_threshold 1 (0::int32)"
    by (simp_all add: cmp_to_threshold_def labs_def)
  have n: "int (length (filter (cmp_to_threshold 1) (replicate 409 (1::int32) @ replicate 3687 0))) = 409"
    using c by simp
  have "\<lceil>(4096::rat) * 10 / 100\<rceil> = 410" by (simp add: ceiling_eq_iff)
  then have "\<lceil>of_nat (OUT_NSAMPLES * NCHANNELS) * VALID_SAMPLES_PERCENT / 100\<rceil> = (410::int)"
    by (simp add: OUT_NSAMPLES_def NCHANNELS_def VALID_SAMPLES_PERCENT_val)
  then show ?thesis
    using n by (simp add: nvals_threshold_val is_silence_of_filter OUT_NSAMPLES_def NCHANNELS_def)
qed

text \<open>
  C1, amended. With \<open>F = OUT_NSAMPLES * NCHANNELS = 4096\<close> samples per chunk, the number
  of samples required is \<open>F * VALID_SAMPLES_PERCENT / 100\<close> converted to \<open>int\<close>, that is
  rounded down: 409. A chunk is labelled silence exactly when at least 409 of its samples
  have an absolute value not below the silence threshold, and signal otherwise.
\<close>

theorem silence_label_rule:
  "nvals_threshold = Some \<lfloor>of_nat (OUT_NSAMPLES * NCHANNELS) * VALID_SAMPLES_PERCENT / 100\<rfloor>
   \<and> \<lfloor>of_nat (OUT_NSAMPLES * NCHANNELS) * VALID_SAMPLES_PERCENT / 100\<rfloor> = (409::int)
   \<and> is_silence_of thr 409 chunk
       = (409 \<le> int (length (filter (\<lambda>val. thr \<le> \<bar>sint val\<bar>) chunk)))"
proof -
  have "\<lfloor>(4096::rat) * 10 / 100\<rfloor> = 409" by (simp add: floor_eq_iff)
  then have f: "\<lfloor>of_nat (OUT_NSAMPLES * NCHANNELS) * VALID_SAMPLES_PERCENT / 100\<rfloor> = (409::int)"
    by (simp add: OUT_NSAMPLES_def NCHANNELS_def VALID_SAMPLES_PERCENT_val)
  have "cmp_to_threshold thr = (\<lambda>val. thr \<le> \<bar>sint val\<bar>)"
    by (rule ext) (simp add: cmp_to_threshold_def labs_def)
  then have "is_silence_of thr 409 chunk
       = (409 \<le> int (length (filter (\<lambda>val. thr \<le> \<bar>sint val\<bar>) chunk)))"
    by (simp add: is_silence_of_filter)
  then show ?thesis using f nvals_threshold_val by simp
qed

theorem silence_label_rule_witness:
  "is_silence_of 1 409 (replicate 409 1 @ replicate 3687 0)
   \<and> \<not> is_silence_of 1 409 (replicate 408 1 @ replicate 3688 0)"
proof -
  have "is_silence_of 1 409 (replicate 409 1 @ replicate 3687 0)"
    using silence_label_rule[of 1 "replicate 409 1 @ replicate 3687 0"] by simp
  moreover have "\<not> is_silence_of 1 409 (replicate 408 1 @ replicate 3688 0)"
    using silence_label_rule[of 1 "replicate 408 1 @ replicate 3688 0"] by simp
  ultimately show ?thesis by simp
qed

subsection \<open>Calibration\<close>

lemma secs2offs_exact:
  assumes "\<lfloor>of_int SAMPLES_PER_SECOND * nsecs\<rfloor> = n" "of_int n = of_int SAMPLES_PER_SECOND * nsecs"
    and "0 \<le> n" "n < 2 ^ 53"
  shows "secs2offs nsecs = \<lfloor>of_int SAMPLES_PER_SECOND * nsecs\<rfloor> * int NCHANNELS"
proof -
  have "round_double (of_int n * 2 powi 0) = of_int n * 2 powi 0"
    using assms(3,4) by (rule round_double_exact)
  then have "round_double (of_int SAMPLES_PER_SECOND * nsecs) = of_int SAMPLES_PER_SECOND * nsecs"
    using assms(2) by simp
  then show ?thesis by (simp add: secs2offs_def double_mul_def)
qed

text \<open>
  Up to a peak of 976128909 the product with the threshold factor is exact in double
  precision (\<open>silence_threshold_of_exact\<close>). Beyond it the product is rounded, and the
  rounding can reach the next integer:
\<close>

lemma silence_threshold_of_rounded:
  "silence_threshold_of 977272827 = Some 1075000133
   \<and> \<lfloor>(977272827::rat) * (9227469 / 8388608)\<rfloor> = (1075000132::int)"
  by code_simp

lemma silence_threshold_of_limit:
  "silence_threshold_of 1952257819 = Some 2147483647 \<and> silence_threshold_of 1952257820 = None"
  by code_simp

lemma silence_threshold_of_defined:
  assumes "0 \<le> m" "m \<le> 1952257819"
  shows "\<exists>t. silence_threshold_of m = Some t"
proof -
  let ?r = "\<lambda>k::int. \<lfloor>round_double (of_int k * VALID_SAMPLE_THRESHOLD)\<rfloor>"
  have top: "?r 1952257819 < 2 ^ 31"
  proof (rule ccontr)
    assume "\<not> ?r 1952257819 < 2 ^ 31"
    then have "silence_threshold_of 1952257819 = None"
      by (simp add: silence_threshold_of_nonneg)
    then show False using silence_threshold_of_limit by simp
  qed
  have "(of_int m :: rat) * VALID_SAMPLE_THRESHOLD \<le> of_int 1952257819 * VALID_SAMPLE_THRESHOLD"
    using assms(2) by (simp add: VALID_SAMPLE_THRESHOLD_val)
  moreover have "(0::rat) \<le> of_int m * VALID_SAMPLE_THRESHOLD"
    using assms(1) by (simp add: VALID_SAMPLE_THRESHOLD_val)
  ultimately have "round_double (of_int m * VALID_SAMPLE_THRESHOLD)
                   \<le> round_double (of_int 1952257819 * VALID_SAMPLE_THRESHOLD)"
    by (intro round_double_mono)
  then have "?r m \<le> ?r 1952257819" by (rule floor_mono)
  then have "?r m < 2 ^ 31" using top by linarith
  then show ?thesis by (simp add: silence_threshold_of_nonneg[OF assms(1)])
qed

lemma silence_threshold_of_undefined:
  assumes "1952257820 \<le> m"
  shows "silence_threshold_of m = None"
proof -
  let ?r = "\<lambda>k::int. \<lfloor>round_double (of_int k * VALID_SAMPLE_THRESHOLD)\<rfloor>"
  have m: "0 \<le> m" using assms by simp
  have bot: "\<not> ?r 1952257820 < 2 ^ 31"
  proof
    assume "?r 1952257820 < 2 ^ 31"
    then have "silence_threshold_of 1952257820 = Some (?r 1952257820)"
      by (simp add: silence_threshold_of_nonneg)
    then show False using silence_threshold_of_limit by simp
  qed
  have "(of_int 1952257820 :: rat) * VALID_SAMPLE_THRESHOLD \<le> of_int m * VALID_SAMPLE_THRESHOLD"
    using assms by (simp add: VALID_SAMPLE_THRESHOLD_val)
  moreover have "(0::rat) \<le> of_int 1952257820 * VALID_SAMPLE_THRESHOLD"
    by (simp add: VALID_SAMPLE_THRESHOLD_val)
  ultimately have "round_double (of_int 1952257820 * VALID_SAMPLE_THRESHOLD)
                   \<le> round_double (of_int m * VALID_SAMPLE_THRESHOLD)"
    by (intro round_double_mono)
  then have "?r 1952257820 \<le> ?r m" by (rule floor_mono)
  then have "\<not> ?r m < 2 ^ 31" using bot by linarith
  then show ?thesis by (simp add: silence_threshold_of_nonneg[OF m])
qed

text \<open>
  A recording that passes the length test and whose peak does not exceed 1952257819 reaches
  the loop over the chunks, with the threshold computed from the peak.
\<close>

lemma process_reaches_loop:
  assumes "data_scan_i < int (length raw)" "window_peak raw \<le> 1952257819"
  shows "\<exists>t. silence_max_of raw = Some (window_peak raw)
           \<and> silence_threshold_of (window_peak raw) = Some t
           \<and> process_raw_audio_file out raw w = chunk_loop out raw t 409 data_scan_i 0 w"
proof -
  have len: "data_scan_i \<le> int (length raw)" using assms(1) by simp
  have rg: "0 \<le> window_peak raw" using window_peak_range[OF len] by simp
  have lt: "window_peak raw < 2 ^ 31" using assms(2) by simp
  have m: "silence_max_of raw = Some (window_peak raw)"
    using silence_max_of_window[OF len] rg lt by (simp add: to_int32_id)
  obtain t where t: "silence_threshold_of (window_peak raw) = Some t"
    using silence_threshold_of_defined[OF rg assms(2)] by blast
  have g: "\<not> (silence_scan_i \<ge> int (length raw) \<or> data_scan_i \<ge> int (length raw))"
    using assms(1) scan_order(2) by simp
  have "process_raw_audio_file out raw w = chunk_loop out raw t 409 data_scan_i 0 w"
    using g by (simp add: process_raw_audio_file_def m t nvals_threshold_val)
  then show ?thesis using m t by blast
qed

text \<open>
  Beyond that peak the product does not fit the 32-bit threshold: the conversion is
  undefined and no chunk is classified.
\<close>

lemma process_threshold_undefined:
  assumes "data_scan_i < int (length raw)" "1952257820 \<le> window_peak raw"
  shows "process_raw_audio_file out raw w = (Inl Undefined_behaviour, w)"
proof -
  have len: "data_scan_i \<le> int (length raw)" using assms(1) by simp
  have g: "\<not> (silence_scan_i \<ge> int (length raw) \<or> data_scan_i \<ge> int (length raw))"
    using assms(1) scan_order(2) by simp
  have m: "silence_max_of raw = Some (to_int32 (window_peak raw))"
    using len by (rule silence_max_of_window)
  have "silence_threshold_of (to_int32 (window_peak raw)) = None"
  proof (cases "window_peak raw = 2 ^ 31")
    case True
    then show ?thesis using to_int32_min silence_threshold_of_min by simp
  next
    case False
    then have "window_peak raw < 2 ^ 31" using window_peak_range[OF len] by simp
    then have "to_int32 (window_peak raw) = window_peak raw"
      using assms(2) by (intro to_int32_id) simp_all
    then show ?thesis using silence_threshold_of_undefined[OF assms(2)] by simp
  qed
  then show ?thesis using g by (simp add: process_raw_audio_file_def m)
qed

text \<open>
  C5 as stated does not hold: with a peak of 1 in the calibration window the threshold is
  1, neither \<open>1.1\<close> nor the value of the \<open>float\<close> constant; a sample of magnitude 1 then
  reaches the threshold, which it would not if the threshold were \<open>1.1\<close>.
\<close>

theorem threshold_of_peak_one:
  "data_scan_i < int (length (example_recording 1 [0]))
   \<and> window_peak (example_recording 1 [0]) = 1
   \<and> silence_max_of (example_recording 1 [0]) = Some 1
   \<and> silence_threshold_of 1 = Some 1
   \<and> (1::rat) \<noteq> 1 * (11 / 10)
   \<and> (1::rat) \<noteq> 1 * VALID_SAMPLE_THRESHOLD
   \<and> cmp_to_threshold 1 1
   \<and> \<not> (11 / 10 :: rat) \<le> of_int (labs (sint (1::int32)))"
proof -
  have s: "(0::int) \<le> sint (1::int32)" "sint (1::int32) = 1" by simp_all
  have "silence_max_of (example_recording 1 [0]) = Some 1"
    using example_recording_max[OF s(1)] by simp
  moreover have "window_peak (example_recording 1 [0]) = 1"
    using example_recording_peak[OF s(1)] by simp
  moreover have "silence_threshold_of 1 = Some 1"
    using silence_threshold_of_exact[of 1] by (simp add: floor_eq_iff)
  ultimately show ?thesis
    by (simp add: example_recording_length data_scan_i_val VALID_SAMPLE_THRESHOLD_val
          cmp_to_threshold_def labs_def)
qed

text \<open>
  C5, amended. For a recording longer than the skipped part and the calibration window
  together, the two durations are converted by
  \<open>offset = floor (rate * seconds) * channels\<close>, giving the window \<open>[96000, 288000)\<close>;
  \<open>silence_max\<close> is the largest absolute sample value in that window; and the silence
  threshold is the product of \<open>silence_max\<close> and the \<open>float\<close> nearest to \<open>1.1\<close>, which
  is \<open>9227469 / 8388608\<close>, with its fraction discarded, because the threshold is an
  \<open>int32_t\<close>. This holds for peaks up to 976128909, for which the product is exact in
  double precision. The chunks are then classified with that threshold.
\<close>

theorem calibration_threshold:
  assumes "data_scan_i < int (length raw)" "window_peak raw \<le> 976128909"
  shows "silence_scan_i = \<lfloor>of_int SAMPLES_PER_SECOND * INITIAL_SKIP_S\<rfloor> * int NCHANNELS
       \<and> data_scan_i
           = silence_scan_i + \<lfloor>of_int SAMPLES_PER_SECOND * SILENCE_TRAINING_S\<rfloor> * int NCHANNELS
       \<and> silence_scan_i = 96000 \<and> data_scan_i = 288000
       \<and> silence_max_of raw = Some (window_peak raw)
       \<and> VALID_SAMPLE_THRESHOLD = 9227469 / 8388608
       \<and> silence_threshold_of (window_peak raw)
           = Some \<lfloor>of_int (window_peak raw) * VALID_SAMPLE_THRESHOLD\<rfloor>
       \<and> process_raw_audio_file out raw w
           = chunk_loop out raw \<lfloor>of_int (window_peak raw) * VALID_SAMPLE_THRESHOLD\<rfloor> 409
               data_scan_i 0 w"
proof -
  have len: "data_scan_i \<le> int (length raw)" using assms(1) by simp
  have rg: "0 \<le> window_peak raw" using window_peak_range[OF len] by simp
  have lt: "window_peak raw < 2 ^ 31" using assms(2) by simp
  have a: "secs2offs INITIAL_SKIP_S = \<lfloor>of_int SAMPLES_PER_SECOND * INITIAL_SKIP_S\<rfloor> * int NCHANNELS"
    by (rule secs2offs_exact[where n = 12000])
       (simp_all add: SAMPLES_PER_SECOND_def INITIAL_SKIP_S_val)
  have b: "secs2offs SILENCE_TRAINING_S
             = \<lfloor>of_int SAMPLES_PER_SECOND * SILENCE_TRAINING_S\<rfloor> * int NCHANNELS"
    by (rule secs2offs_exact[where n = 24000])
       (simp_all add: SAMPLES_PER_SECOND_def SILENCE_TRAINING_S_val)
  have m: "silence_max_of raw = Some (window_peak raw)"
    using silence_max_of_window[OF len] rg lt by (simp add: to_int32_id)
  have t: "silence_threshold_of (window_peak raw)
             = Some \<lfloor>of_int (window_peak raw) * VALID_SAMPLE_THRESHOLD\<rfloor>"
    using silence_threshold_of_exact[OF rg assms(2)] by (simp add: VALID_SAMPLE_THRESHOLD_val)
  have g: "\<not> (silence_scan_i \<ge> int (length raw) \<or> data_scan_i \<ge> int (length raw))"
    using assms(1) scan_order(2) by simp
  have p: "process_raw_audio_file out raw w
           = chunk_loop out raw \<lfloor>of_int (window_peak raw) * VALID_SAMPLE_THRESHOLD\<rfloor> 409
               data_scan_i 0 w"
    using g by (simp add: process_raw_audio_file_def m t nvals_threshold_val)
  have c1: "silence_scan_i = \<lfloor>of_int SAMPLES_PER_SECOND * INITIAL_SKIP_S\<rfloor> * int NCHANNELS"
    using a by (simp only: silence_scan_i_def)
  have c2: "data_scan_i
           = silence_scan_i + \<lfloor>of_int SAMPLES_PER_SECOND * SILENCE_TRAINING_S\<rfloor> * int NCHANNELS"
    using b by (simp only: data_scan_i_def)
  show ?thesis
    by (intro conjI c1 c2 silence_scan_i_val data_scan_i_val m VALID_SAMPLE_THRESHOLD_val t p)
qed

theorem calibration_threshold_witness:
  "data_scan_i < int (length (example_recording 100000000 [0]))
   \<and> window_peak (example_recording 100000000 [0]) = 100000000
   \<and> silence_max_of (example_recording 100000000 [0]) = Some 100000000
   \<and> silence_threshold_of 100000000 = Some 110000002"
proof -
  have s: "(0::int) \<le> sint (100000000::int32)" "sint (100000000::int32) = 100000000" by simp_all
  have pk: "window_peak (example_recording 100000000 [0]) = 100000000"
    using example_recording_peak[OF s(1)] s(2) by simp
  have h1: "data_scan_i < int (length (example_recording 100000000 [0]))"
    by (simp add: example_recording_length data_scan_i_val)
  have h2: "window_peak (example_recording 100000000 [0]) \<le> 976128909" by (simp add: pk)
  have f: "\<lfloor>(100000000::rat) * (9227469 / 8388608)\<rfloor> = 110000002" by (simp add: floor_eq_iff)
  show ?thesis
    using h1 pk f calibration_threshold[OF h1 h2] by simp
qed

text \<open>
  C6 as stated does not hold: two recordings that differ in one sample of the calibration
  window, 5 in the first and 10 in the second, have thresholds 5 and 11.
\<close>

theorem threshold_not_doubled:
  "data_scan_i < int (length (example_recording 5 [0]))
   \<and> data_scan_i < int (length (example_recording 10 [0]))
   \<and> window_peak (example_recording 5 [0]) = 5
   \<and> window_peak (example_recording 10 [0]) = 10
   \<and> silence_max_of (example_recording 5 [0]) = Some 5
   \<and> silence_max_of (example_recording 10 [0]) = Some 10
   \<and> silence_threshold_of 5 = Some 5
   \<and> silence_threshold_of 10 = Some 11"
proof -
  have s: "(0::int) \<le> sint (5::int32)" "sint (5::int32) = 5"
    "(0::int) \<le> sint (10::int32)" "sint (10::int32) = 10" by simp_all
  have "silence_threshold_of 5 = Some 5"
    using silence_threshold_of_exact[of 5] by (simp add: floor_eq_iff)
  moreover have "silence_threshold_of 10 = Some 11"
    using silence_threshold_of_exact[of 10] by (simp add: floor_eq_iff)
  ultimately show ?thesis
    using example_recording_max[OF s(1)] example_recording_max[OF s(3)]
      example_recording_peak[OF s(1)] example_recording_peak[OF s(3)]
    by (simp add: example_recording_length data_scan_i_val)
qed

text \<open>
  C6, amended. For recordings whose peak absolute sample in the calibration window is at
  most 1952257819 the silence threshold is defined, it never decreases when the peak grows,
  and when the peak is doubled (both peaks within that limit) the threshold becomes twice
  the former threshold or one more than that, because the fraction of the product is
  discarded only after the multiplication; this includes the peaks whose product is
  rounded in double precision. For a peak above 1952257819 the product does not fit the
  32-bit threshold, the conversion is undefined, and neither statement is made.
\<close>

theorem threshold_monotone_defined:
  assumes "data_scan_i < int (length raw1)" "data_scan_i < int (length raw2)"
    and "window_peak raw1 \<le> 1952257819" "window_peak raw2 \<le> 1952257819"
  shows "(\<exists>t1 t2.
            silence_max_of raw1 = Some (window_peak raw1)
          \<and> silence_threshold_of (window_peak raw1) = Some t1
          \<and> process_raw_audio_file out raw1 w = chunk_loop out raw1 t1 409 data_scan_i 0 w
          \<and> silence_max_of raw2 = Some (window_peak raw2)
          \<and> silence_threshold_of (window_peak raw2) = Some t2
          \<and> process_raw_audio_file out raw2 w = chunk_loop out raw2 t2 409 data_scan_i 0 w
          \<and> (window_peak raw1 \<le> window_peak raw2 \<longrightarrow> t1 \<le> t2)
          \<and> (window_peak raw2 = 2 * window_peak raw1 \<longrightarrow> t2 = 2 * t1 \<or> t2 = 2 * t1 + 1))
       \<and> (\<forall>m. 1952257820 \<le> m \<longrightarrow> silence_threshold_of m = None)"
proof -
  have l: "data_scan_i \<le> int (length raw1)" using assms(1) by simp
  have p1: "0 \<le> window_peak raw1" using window_peak_range[OF l] by simp
  obtain t1 where t1: "silence_max_of raw1 = Some (window_peak raw1)"
      "silence_threshold_of (window_peak raw1) = Some t1"
      "process_raw_audio_file out raw1 w = chunk_loop out raw1 t1 409 data_scan_i 0 w"
    using process_reaches_loop[OF assms(1,3)] by blast
  obtain t2 where t2: "silence_max_of raw2 = Some (window_peak raw2)"
      "silence_threshold_of (window_peak raw2) = Some t2"
      "process_raw_audio_file out raw2 w = chunk_loop out raw2 t2 409 data_scan_i 0 w"
    using process_reaches_loop[OF assms(2,4)] by blast
  have mono: "t1 \<le> t2" if "window_peak raw1 \<le> window_peak raw2"
    using p1 that t1(2) t2(2) by (rule silence_threshold_of_mono)
  have twice: "t2 = 2 * t1 \<or> t2 = 2 * t1 + 1" if "window_peak raw2 = 2 * window_peak raw1"
  proof -
    have "silence_threshold_of (2 * window_peak raw1) = Some t2" using that t2(2) by simp
    with p1 t1(2) show ?thesis by (rule silence_threshold_of_twice)
  qed
  have u: "\<forall>m. 1952257820 \<le> m \<longrightarrow> silence_threshold_of m = None"
    using silence_threshold_of_undefined by blast
  show ?thesis using t1 t2 mono twice u by blast
qed

theorem threshold_monotone_defined_witness:
  "data_scan_i < int (length (example_recording 500000000 [0]))
   \<and> data_scan_i < int (length (example_recording 1000000000 [0]))
   \<and> window_peak (example_recording 500000000 [0]) = 500000000
   \<and> window_peak (example_recording 1000000000 [0]) = 1000000000
   \<and> silence_threshold_of 500000000 = Some 550000011
   \<and> silence_threshold_of 1000000000 = Some 1100000023
   \<and> (550000011::int) \<le> 1100000023
   \<and> (1100000023::int) = 2 * 550000011 + 1
   \<and> silence_threshold_of 2000000000 = None"
proof -
  have s: "(0::int) \<le> sint (500000000::int32)" "sint (500000000::int32) = 500000000"
    "(0::int) \<le> sint (1000000000::int32)" "sint (1000000000::int32) = 1000000000" by simp_all
  have h1: "data_scan_i < int (length (example_recording 500000000 [0]))"
    and h2: "data_scan_i < int (length (example_recording 1000000000 [0]))"
    by (simp_all add: example_recording_length data_scan_i_val)
  have pk: "window_peak (example_recording 500000000 [0]) = 500000000"
    "window_peak (example_recording 1000000000 [0]) = 1000000000"
    using example_recording_peak[OF s(1)] example_recording_peak[OF s(3)] s(2,4) by simp_all
  have h3: "window_peak (example_recording 500000000 [0]) \<le> 1952257819"
    and h4: "window_peak (example_recording 1000000000 [0]) \<le> 1952257819"
    by (simp_all add: pk)
  have v1: "silence_threshold_of 500000000 = Some 550000011"
    using silence_threshold_of_exact[of 500000000] by (simp add: floor_eq_iff)
  have v2: "silence_threshold_of 1000000000 = Some 1100000023" by code_simp
  have u: "silence_threshold_of 2000000000 = None"
    using threshold_monotone_defined[OF h1 h2 h3 h4] by simp
  show ?thesis using h1 h2 pk v1 v2 u by simp
qed

subsection \<open>The loop over the chunks\<close>

lemma chunk_count_step:
  assumes "start \<le> len - chunk_len"
  shows "nat ((len - start) div chunk_len) = Suc (nat ((len - (start + chunk_len)) div chunk_len))"
proof -
  define y where "y = len - (start + 4096)"
  have y: "0 \<le> y" using assms by (simp add: y_def chunk_len_val)
  have "len - start = y + 4096" by (simp add: y_def)
  then have "(len - start) div 4096 = y div 4096 + 1" by simp
  moreover have "0 \<le> y div 4096" using y by simp
  ultimately show ?thesis by (simp add: chunk_len_val y_def)
qed

lemma chunk_count_stop:
  assumes "\<not> start \<le> len - chunk_len"
  shows "nat ((len - start) div chunk_len) = 0"
proof -
  have "len - start < 4096" using assms by (simp add: chunk_len_val)
  then have "(len - start) div 4096 \<le> 0" by simp
  then show ?thesis by (simp add: chunk_len_val)
qed

lemma chunk_loop_submit:
  "chunk_loop out raw thr nthr start num w =
     submit_chunks out raw thr nthr
       (map (\<lambda>k. start + int k * chunk_len)
          [0 ..< nat ((int (length raw) - start) div chunk_len)])
       num w"
proof (induction "nat ((int (length raw) - start) div chunk_len)" arbitrary: start num w)
  case 0
  have "\<not> start \<le> int (length raw) - chunk_len"
  proof
    assume "start \<le> int (length raw) - chunk_len"
    then have "nat ((int (length raw) - start) div chunk_len)
                 = Suc (nat ((int (length raw) - (start + chunk_len)) div chunk_len))"
      by (rule chunk_count_step)
    with 0 show False by simp
  qed
  then show ?case using 0 by (subst chunk_loop.simps) simp
next
  case (Suc n)
  have go: "start \<le> int (length raw) - chunk_len"
  proof (rule ccontr)
    assume "\<not> start \<le> int (length raw) - chunk_len"
    then have "nat ((int (length raw) - start) div chunk_len) = 0" by (rule chunk_count_stop)
    with Suc(2) show False by simp
  qed
  have n: "n = nat ((int (length raw) - (start + chunk_len)) div chunk_len)"
    using chunk_count_step[OF go] Suc(2) by simp
  have offs: "map (\<lambda>k. start + int k * chunk_len) [0 ..< Suc n]
                = start # map (\<lambda>k. (start + chunk_len) + int k * chunk_len) [0 ..< n]"
    by (simp only: map_upt_Suc) (simp add: algebra_simps)
  have ih: "\<And>num w. chunk_loop out raw thr nthr (start + chunk_len) num w =
     submit_chunks out raw thr nthr
       (map (\<lambda>k. (start + chunk_len) + int k * chunk_len) [0 ..< n]) num w"
    using Suc(1)[OF n] by (simp only: n[symmetric])
  show ?case
    unfolding Suc(2)[symmetric] offs
    by (subst chunk_loop.simps) (simp add: go ih Let_def split: prod.split sum.split)
qed

lemma chunk_offsets_nth:
  assumes "k < length (chunk_offsets len)"
  shows "chunk_offsets len ! k = data_scan_i + int k * chunk_len"
  using assms by (simp add: chunk_offsets_def)

lemma chunk_offsets_fit:
  assumes "data_scan_i \<le> len"
  shows "data_scan_i + int (length (chunk_offsets len)) * chunk_len \<le> len"
    and "len - (data_scan_i + int (length (chunk_offsets len)) * chunk_len) < chunk_len"
proof -
  define d where "d = len - data_scan_i"
  have d: "0 \<le> d" using assms by (simp add: d_def)
  then have q: "0 \<le> d div 4096" by simp
  have l: "int (length (chunk_offsets len)) = d div 4096"
    using q by (simp add: chunk_offsets_def chunk_len_val d_def)
  have "d = d div 4096 * 4096 + d mod 4096" by simp
  moreover have "0 \<le> d mod 4096" "d mod 4096 < 4096" by simp_all
  ultimately have "d div 4096 * 4096 \<le> d" "d - d div 4096 * 4096 < 4096" by linarith+
  then show "data_scan_i + int (length (chunk_offsets len)) * chunk_len \<le> len"
    and "len - (data_scan_i + int (length (chunk_offsets len)) * chunk_len) < chunk_len"
    unfolding l chunk_len_val by (simp_all add: d_def)
qed

lemma chunk_offsets_chunk:
  assumes "data_scan_i \<le> int (length raw)" "k < length (chunk_offsets (int (length raw)))"
  shows "0 \<le> chunk_offsets (int (length raw)) ! k"
    and "chunk_offsets (int (length raw)) ! k + chunk_len \<le> int (length raw)"
proof -
  have o: "chunk_offsets (int (length raw)) ! k = data_scan_i + int k * chunk_len"
    using assms(2) by (rule chunk_offsets_nth)
  show "0 \<le> chunk_offsets (int (length raw)) ! k"
    unfolding o by (simp add: data_scan_i_val chunk_len_val)
  have "int k + 1 \<le> int (length (chunk_offsets (int (length raw))))" using assms(2) by simp
  then have "(int k + 1) * chunk_len \<le> int (length (chunk_offsets (int (length raw)))) * chunk_len"
    by (intro mult_right_mono) (simp_all add: chunk_len_val)
  then show "chunk_offsets (int (length raw)) ! k + chunk_len \<le> int (length raw)"
    unfolding o using chunk_offsets_fit(1)[OF assms(1)] by (simp add: algebra_simps)
qed

lemma chunk_offsets_slice:
  assumes "data_scan_i \<le> int (length raw)" "k < length (chunk_offsets (int (length raw)))"
  shows "chunk_offsets (int (length raw)) ! k = data_scan_i + int k * int (OUT_NSAMPLES * NCHANNELS)
       \<and> buf_range raw (chunk_offsets (int (length raw)) ! k)
            (chunk_offsets (int (length raw)) ! k + chunk_len)
          = map (\<lambda>i. raw ! i)
              [nat (chunk_offsets (int (length raw)) ! k)
               ..< nat (chunk_offsets (int (length raw)) ! k) + OUT_NSAMPLES * NCHANNELS]"
proof -
  have cl: "int (OUT_NSAMPLES * NCHANNELS) = chunk_len" by (simp add: chunk_len_def)
  define off where "off = chunk_offsets (int (length raw)) ! k"
  have o: "0 \<le> off" "off + chunk_len \<le> int (length raw)"
    using chunk_offsets_chunk[OF assms] by (simp_all add: off_def)
  have "buf_range raw off (off + chunk_len) = map (\<lambda>i. raw ! i) [nat off ..< nat (off + chunk_len)]"
    using o by (intro buf_range_nth) (simp_all add: chunk_len_val)
  moreover have "nat (off + chunk_len) = nat off + OUT_NSAMPLES * NCHANNELS"
    using o(1) by (simp add: chunk_len_val OUT_NSAMPLES_def NCHANNELS_def nat_add_distrib)
  ultimately show ?thesis
    using chunk_offsets_nth[OF assms(2)] by (simp only: off_def cl)
qed

text \<open>
  C7. Processing a recording that passes the length test, and whose calibration peak is
  at most 1952257819 so that the threshold \<open>t\<close> is defined, enters the loop at offset
  \<open>data_scan_i\<close> (the end of the calibration window) with no chunk counted, and is the
  submission, in order, of the chunks that start at \<open>data_scan_i\<close>, \<open>data_scan_i + F\<close>,
  \<open>data_scan_i + 2 * F\<close>, ... with \<open>F = OUT_NSAMPLES * NCHANNELS\<close>, each with its offset
  and its label; chunk \<open>k\<close> consists of the \<open>F\<close> consecutive samples from its offset
  on, so the chunks do not overlap; after the last chunk fewer than \<open>F\<close> samples remain,
  and they are not submitted.
\<close>

theorem process_submits_chunks:
  assumes "data_scan_i < int (length raw)" "window_peak raw \<le> 1952257819"
  shows "(\<exists>t. silence_threshold_of (window_peak raw) = Some t
            \<and> process_raw_audio_file out raw w = chunk_loop out raw t 409 data_scan_i 0 w
            \<and> process_raw_audio_file out raw w
                = submit_chunks out raw t 409 (chunk_offsets (int (length raw))) 0 w)
       \<and> (\<forall>k. k < length (chunk_offsets (int (length raw))) \<longrightarrow>
            chunk_offsets (int (length raw)) ! k = data_scan_i + int k * int (OUT_NSAMPLES * NCHANNELS)
            \<and> buf_range raw (chunk_offsets (int (length raw)) ! k)
                 (chunk_offsets (int (length raw)) ! k + chunk_len)
               = map (\<lambda>i. raw ! i)
                   [nat (chunk_offsets (int (length raw)) ! k)
                    ..< nat (chunk_offsets (int (length raw)) ! k) + OUT_NSAMPLES * NCHANNELS])
       \<and> data_scan_i + int (length (chunk_offsets (int (length raw)))) * int (OUT_NSAMPLES * NCHANNELS)
           \<le> int (length raw)
       \<and> int (length raw)
           - (data_scan_i + int (length (chunk_offsets (int (length raw)))) * int (OUT_NSAMPLES * NCHANNELS))
           < int (OUT_NSAMPLES * NCHANNELS)
       \<and> data_scan_i = secs2offs INITIAL_SKIP_S + secs2offs SILENCE_TRAINING_S"
proof -
  have len: "data_scan_i \<le> int (length raw)" using assms(1) by simp
  have cl: "int (OUT_NSAMPLES * NCHANNELS) = chunk_len" by (simp add: chunk_len_def)
  obtain t where t: "silence_threshold_of (window_peak raw) = Some t"
      "process_raw_audio_file out raw w = chunk_loop out raw t 409 data_scan_i 0 w"
    using process_reaches_loop[OF assms] by blast
  have "chunk_loop out raw t 409 data_scan_i 0 w
          = submit_chunks out raw t 409 (chunk_offsets (int (length raw))) 0 w"
    by (simp only: chunk_loop_submit chunk_offsets_def)
  then have a: "\<exists>t. silence_threshold_of (window_peak raw) = Some t
            \<and> process_raw_audio_file out raw w = chunk_loop out raw t 409 data_scan_i 0 w
            \<and> process_raw_audio_file out raw w
                = submit_chunks out raw t 409 (chunk_offsets (int (length raw))) 0 w"
    using t by auto
  have d: "data_scan_i = secs2offs INITIAL_SKIP_S + secs2offs SILENCE_TRAINING_S"
    by (simp add: data_scan_i_def silence_scan_i_def)
  show ?thesis
    using a chunk_offsets_slice[OF len] chunk_offsets_fit[OF len] d unfolding cl by blast
qed

lemma example_recording_chunk:
  "buf_range (example_recording v (replicate 5000 x)) 288000 (288000 + chunk_len) = replicate 4096 x"
  by (simp add: example_recording_def buf_range_def chunk_len_val)

lemma example_recording_offsets:
  "chunk_offsets (int (length (example_recording v (replicate 5000 x)))) = [288000]"
  by (simp add: chunk_offsets_def example_recording_length data_scan_i_val chunk_len_val)

lemma example_two_chunks_offsets:
  "chunk_offsets
     (int (length (example_recording v (replicate 4096 x @ replicate 4096 y @ replicate 808 z))))
   = [288000, 292096]"
  by (simp add: chunk_offsets_def example_recording_length data_scan_i_val chunk_len_val
        numeral_2_eq_2)

lemma example_two_chunks_slices:
  "buf_range (example_recording v (replicate 4096 x @ replicate 4096 y @ replicate 808 z))
     288000 (288000 + chunk_len) = replicate 4096 x"
  "buf_range (example_recording v (replicate 4096 x @ replicate 4096 y @ replicate 808 z))
     292096 (292096 + chunk_len) = replicate 4096 y"
  by (simp_all add: example_recording_def buf_range_def chunk_len_val)

theorem process_submits_chunks_witness:
  "data_scan_i
     < int (length (example_recording 0 (replicate 4096 7 @ replicate 4096 9 @ replicate 808 3)))
   \<and> window_peak (example_recording 0 (replicate 4096 7 @ replicate 4096 9 @ replicate 808 3)) = 0
   \<and> chunk_offsets
        (int (length (example_recording 0 (replicate 4096 7 @ replicate 4096 9 @ replicate 808 3))))
      = [288000, 292096]
   \<and> process_raw_audio_file (Silence_output ''rec/output-silence.raw'' ''out'')
        (example_recording 0 (replicate 4096 7 @ replicate 4096 9 @ replicate 808 3))
        (const_world 99)
      = (Inr 2,
         (const_world 99)\<lparr>rand_calls := 2,
           written := [(\<lparr>dst_outbase = ''out'', dst_path = ''silence'',
                          dst_srcname = ''output-silence.raw'', dst_chunk_i = 288000\<rparr>,
                        replicate 4096 7),
                       (\<lparr>dst_outbase = ''out'', dst_path = ''silence'',
                          dst_srcname = ''output-silence.raw'', dst_chunk_i = 292096\<rparr>,
                        replicate 4096 9)]\<rparr>)
   \<and> int (length (example_recording 0 (replicate 4096 7 @ replicate 4096 9 @ replicate 808 3)))
       - (288000 + 2 * 4096) = 808"
proof -
  define raw :: "int32 list"
    where "raw = example_recording 0 (replicate 4096 7 @ replicate 4096 9 @ replicate 808 3)"
  define out where "out = Silence_output ''rec/output-silence.raw'' ''out''"
  have h1: "data_scan_i < int (length raw)"
    by (simp add: raw_def example_recording_length data_scan_i_val)
  have z: "(0::int) \<le> sint (0::int32)" by simp
  have pk: "window_peak raw = 0"
    unfolding raw_def using example_recording_peak[OF z] by simp
  have h2: "window_peak raw \<le> 1952257819" by (simp add: pk)
  have o: "chunk_offsets (int (length raw)) = [288000, 292096]"
    unfolding raw_def by (rule example_two_chunks_offsets)
  have c: "buf_range raw 288000 (288000 + chunk_len) = replicate 4096 7"
    "buf_range raw 292096 (292096 + chunk_len) = replicate 4096 9"
    unfolding raw_def by (rule example_two_chunks_slices)+
  have s: "is_silence_of 0 409 (replicate 4096 (7::int32))"
    "is_silence_of 0 409 (replicate 4096 (9::int32))"
    by (simp_all add: is_silence_of_filter cmp_to_threshold_def labs_def)
  have f: "filename ''rec/output-silence.raw'' = ''output-silence.raw''"
    by (simp add: filename_def)
  define w1 where "w1 = (const_world 99)\<lparr>rand_calls := 1,
                written := [(\<lparr>dst_outbase = ''out'', dst_path = ''silence'',
                               dst_srcname = ''output-silence.raw'', dst_chunk_i = 288000\<rparr>,
                             replicate 4096 7)]\<rparr>"
  define w2 where "w2 = (const_world 99)\<lparr>rand_calls := 2,
                written := [(\<lparr>dst_outbase = ''out'', dst_path = ''silence'',
                               dst_srcname = ''output-silence.raw'', dst_chunk_i = 288000\<rparr>,
                             replicate 4096 7),
                            (\<lparr>dst_outbase = ''out'', dst_path = ''silence'',
                               dst_srcname = ''output-silence.raw'', dst_chunk_i = 292096\<rparr>,
                             replicate 4096 9)]\<rparr>"
  have sv1: "save_chunk out (replicate 4096 7) 288000 True (const_world 99) = (Inr True, w1)"
    by (simp add: out_def w1_def save_to_file_def const_world_def OUT_DROP_PERCENT_def f
          OUT_DATASET_NWORDS_def OUT_NSAMPLES_def NCHANNELS_def)
  have sv2: "save_chunk out (replicate 4096 9) 292096 True w1 = (Inr True, w2)"
    by (simp add: out_def w1_def w2_def save_to_file_def const_world_def OUT_DROP_PERCENT_def f
          OUT_DATASET_NWORDS_def OUT_NSAMPLES_def NCHANNELS_def)
  have sub: "submit_chunks out raw 0 409 [288000, 292096] 0 (const_world 99) = (Inr 2, w2)"
    by (simp add: c s sv1 sv2 del: save_chunk.simps)
  have t0: "silence_threshold_of 0 = Some 0"
    using silence_threshold_of_exact[of 0] by simp
  note t = process_submits_chunks[OF h1 h2, of out "const_world 99", unfolded o pk t0]
  have a: "process_raw_audio_file out raw (const_world 99)
             = submit_chunks out raw 0 409 [288000, 292096] 0 (const_world 99)"
    using t by auto
  have l: "int (length raw) - (288000 + 2 * 4096) = 808"
    by (simp add: raw_def example_recording_length)
  have r: "process_raw_audio_file out raw (const_world 99) = (Inr 2, w2)"
    using a sub by simp
  show ?thesis
    unfolding raw_def[symmetric] out_def[symmetric] w2_def[symmetric]
    by (intro conjI h1 pk o l r)
qed

subsection \<open>A silent calibration window\<close>

lemma submit_chunks_dataset_silence:
  assumes "\<forall>off\<in>set offs. is_silence_of thr nthr (buf_range raw off (off + chunk_len))"
  shows "submit_chunks (Dataset_output s b dirs) raw thr nthr offs num w = (Inr num, w)"
  using assms by (induction offs arbitrary: num w) simp_all

lemma is_silence_of_zero:
  assumes "length chunk = 4096"
  shows "is_silence_of 0 409 chunk"
proof -
  have "filter (cmp_to_threshold 0) chunk = chunk"
    by (simp add: cmp_to_threshold_def labs_def)
  then show ?thesis using assms by (simp add: is_silence_of_filter)
qed

lemma chunk_offsets_length:
  assumes "data_scan_i \<le> int (length raw)" "off \<in> set (chunk_offsets (int (length raw)))"
  shows "length (buf_range raw off (off + chunk_len)) = 4096"
proof -
  obtain k where k: "k < length (chunk_offsets (int (length raw)))"
    "off = chunk_offsets (int (length raw)) ! k"
    using assms(2) by (auto simp: in_set_conv_nth)
  have "0 \<le> off" "off + chunk_len \<le> int (length raw)"
    using chunk_offsets_chunk[OF assms(1) k(1)] k(2) by simp_all
  then show ?thesis by (simp add: buf_range_def chunk_len_val)
qed

text \<open>
  C10. If every sample of the calibration window \<open>[silence_scan_i, data_scan_i)\<close> is zero,
  then \<open>silence_max\<close> and the silence threshold are 0, every chunk is labelled silence
  (all 4096 of its samples reach the threshold 0, and 4096 is at least 409), and processing
  the recording with a directional output returns with no chunk recorded, no random number
  drawn and no file written.
\<close>

theorem zero_window_writes_nothing:
  assumes "data_scan_i < int (length raw)"
    and "\<forall>i. nat silence_scan_i \<le> i \<and> i < nat data_scan_i \<longrightarrow> raw ! i = 0"
  shows "silence_max_of raw = Some 0 \<and> silence_threshold_of 0 = Some 0
       \<and> (\<forall>off\<in>set (chunk_offsets (int (length raw))).
            count_if (cmp_to_threshold 0) (buf_range raw off (off + chunk_len))
              = int (OUT_NSAMPLES * NCHANNELS)
            \<and> is_silence_of 0 409 (buf_range raw off (off + chunk_len)))
       \<and> process_raw_audio_file (Dataset_output s b dirs) raw w = (Inr 0, w)"
proof -
  have len: "data_scan_i \<le> int (length raw)" using assms(1) by simp
  have "(\<lambda>i. \<bar>sint (raw ! i)\<bar>) ` {nat silence_scan_i ..< nat data_scan_i} = {0}"
  proof -
    have ne: "{nat silence_scan_i ..< nat data_scan_i} \<noteq> {}"
      using scan_order(3) by (simp only: atLeastLessThan_empty_iff not_not)
    have "(\<lambda>i. \<bar>sint (raw ! i)\<bar>) ` {nat silence_scan_i ..< nat data_scan_i}
            = (\<lambda>i. 0) ` {nat silence_scan_i ..< nat data_scan_i}"
      using assms(2) by (intro image_cong refl) simp
    also have "\<dots> = {0}" using ne by (simp only: image_constant_conv if_False)
    finally show ?thesis .
  qed
  then have pk: "window_peak raw = 0" by (simp add: window_peak_def)
  have m: "silence_max_of raw = Some 0"
    using silence_max_of_window[OF len] by (simp add: pk to_int32_id)
  have t: "silence_threshold_of 0 = Some 0"
    using silence_threshold_of_exact[of 0] by simp
  have c: "count_if (cmp_to_threshold 0) (buf_range raw off (off + chunk_len))
              = int (OUT_NSAMPLES * NCHANNELS)
            \<and> is_silence_of 0 409 (buf_range raw off (off + chunk_len))"
    if "off \<in> set (chunk_offsets (int (length raw)))" for off
  proof -
    have l: "length (buf_range raw off (off + chunk_len)) = 4096"
      using len that by (rule chunk_offsets_length)
    have "filter (cmp_to_threshold 0) (buf_range raw off (off + chunk_len))
            = buf_range raw off (off + chunk_len)"
      by (simp add: cmp_to_threshold_def labs_def)
    then have "count_if (cmp_to_threshold 0) (buf_range raw off (off + chunk_len)) = 4096"
      using l by (simp add: count_if_filter)
    then show ?thesis
      using is_silence_of_zero[OF l] by (simp add: OUT_NSAMPLES_def NCHANNELS_def)
  qed
  have g: "\<not> (silence_scan_i \<ge> int (length raw) \<or> data_scan_i \<ge> int (length raw))"
    using assms(1) scan_order(2) by simp
  have "process_raw_audio_file (Dataset_output s b dirs) raw w
          = chunk_loop (Dataset_output s b dirs) raw 0 409 data_scan_i 0 w"
    using g by (simp add: process_raw_audio_file_def m t nvals_threshold_val)
  also have "\<dots> = submit_chunks (Dataset_output s b dirs) raw 0 409
                     (chunk_offsets (int (length raw))) 0 w"
    by (simp only: chunk_loop_submit chunk_offsets_def)
  also have "\<dots> = (Inr 0, w)"
    using c by (intro submit_chunks_dataset_silence) blast
  finally show ?thesis using m t c by blast
qed

theorem zero_window_writes_nothing_witness:
  "data_scan_i < int (length (example_recording 0 (replicate 5000 7)))
   \<and> buf_range (example_recording 0 (replicate 5000 7)) silence_scan_i data_scan_i
      = replicate 192000 0
   \<and> chunk_offsets (int (length (example_recording 0 (replicate 5000 7)))) = [288000]
   \<and> is_silence_of 0 409 (buf_range (example_recording 0 (replicate 5000 7)) 288000 (288000 + chunk_len))
   \<and> process_raw_audio_file
        (Dataset_output ''rec/output-05.625deg-0elev-1.0m.raw'' ''out''
           [''5.625'', ''50.625'', ''95.625'', ''140.625'', ''185.625'', ''230.625'', ''275.625'',
            ''320.625''])
        (example_recording 0 (replicate 5000 7)) (const_world 99)
      = (Inr 0, const_world 99)"
proof -
  define raw :: "int32 list" where "raw = example_recording 0 (replicate 5000 7)"
  have h1: "data_scan_i < int (length raw)"
    by (simp add: raw_def example_recording_length data_scan_i_val)
  have win: "buf_range raw silence_scan_i data_scan_i = replicate 192000 0"
    unfolding raw_def example_recording_window by (simp add: replicate_Suc[symmetric] del: replicate_Suc)
  have h2: "\<forall>i. nat silence_scan_i \<le> i \<and> i < nat data_scan_i \<longrightarrow> raw ! i = 0"
  proof (intro allI impI)
    fix i
    assume i: "nat silence_scan_i \<le> i \<and> i < nat data_scan_i"
    define j where "j = i - nat silence_scan_i"
    have lw: "length (buf_range raw silence_scan_i data_scan_i) = 192000"
      by (simp only: win length_replicate)
    have j: "j < length (buf_range raw silence_scan_i data_scan_i)" "i = nat silence_scan_i + j"
      unfolding lw using i by (auto simp add: j_def silence_scan_i_val data_scan_i_val)
    have "nat silence_scan_i \<le> length raw" using h1 scan_order(1,2) by linarith
    then have "buf_range raw silence_scan_i data_scan_i ! j = raw ! i"
      using j by (simp add: buf_range_def)
    then show "raw ! i = 0" using j(1) by (simp add: win)
  qed
  have o: "chunk_offsets (int (length raw)) = [288000]"
    unfolding raw_def by (rule example_recording_offsets)
  note t = zero_window_writes_nothing[OF h1 h2, unfolded o]
  have s: "is_silence_of 0 409 (buf_range raw 288000 (288000 + chunk_len))"
    using t by simp
  show ?thesis
    unfolding raw_def[symmetric] using t by (intro conjI h1 win o s) simp
qed

end
